theory Spec2Isabelle
  imports Complex_Main "HOL-Library.Word" "HOL-Library.Multiset" "HOL-Library.Signed_Division"
begin

unbundle bit_operations_syntax

section \<open>JavaScript values of the optional constructor parameters\<close>

text \<open>
  An optional numeric option of the \<open>GraphLayout\<close> constructor is either absent
  (\<open>undefined\<close>), the number \<open>NaN\<close>, or an ordinary number. Numbers are modelled as
  reals; the decimal constants of the source stand for the doubles nearest to them.
\<close>

datatype jsval = JUndefined | JNaN | JNum real

text \<open>JavaScript truthiness restricted to these values: \<open>undefined\<close>, \<open>NaN\<close> and \<open>0\<close> are falsy.\<close>

fun truthy :: "jsval \<Rightarrow> bool" where
  "truthy JUndefined = False"
| "truthy JNaN = False"
| "truthy (JNum x) = (x \<noteq> 0)"

text \<open>\<open>a || b\<close>\<close>

definition js_or :: "jsval \<Rightarrow> jsval \<Rightarrow> jsval" where
  "js_or a b = (if truthy a then a else b)"

text \<open>\<open>a !== undefined ? a : b\<close>\<close>

definition js_defined_or :: "jsval \<Rightarrow> jsval \<Rightarrow> jsval" where
  "js_defined_or a b = (if a \<noteq> JUndefined then a else b)"

section \<open>The orchestrator's constructor (layout.js, \<open>GraphLayout.constructor\<close>)\<close>

text \<open>
  The options object handed to the constructor. The caller may put any property into
  it; the constructor's destructuring pattern reads \<open>gl\<close>, the counts, the five
  textures and the seven optional numbers below. A \<open>damping\<close> property is carried by
  the object like any other property, and the pattern does not read it.
  \<open>opt_ext_color_buffer_float\<close> is what \<open>gl.getExtension\<close> answers, and
  \<open>opt_textures_present\<close> says that all five textures are truthy.
\<close>

record layout_options =
  opt_ext_color_buffer_float :: bool
  opt_textures_present :: bool
  opt_particleCount :: nat
  opt_edgeCount :: nat
  opt_edgeCoarseMapStride :: jsval
  opt_gravityWindow :: jsval
  opt_dt :: jsval
  opt_G :: jsval
  opt_springK :: jsval
  opt_eps :: jsval
  opt_damping :: jsval
  opt_sfcResolution :: jsval

datatype ctor_error = ExtColorBufferFloatNotSupported | MissingRequiredTextures

record layout_engine =
  particleCount :: nat
  edgeCount :: nat
  edgeCoarseMapStride :: jsval
  gravityWindow :: jsval
  dt :: jsval
  G :: jsval
  springK :: jsval
  eps :: jsval
  damping :: jsval
  sfcResolution :: jsval
  sortSpanSize :: nat
  passCounter :: nat
  renderCount :: nat

definition GraphLayout_constructor :: "layout_options \<Rightarrow> ctor_error + layout_engine" where
  "GraphLayout_constructor opts =
     (if \<not> opt_ext_color_buffer_float opts then Inl ExtColorBufferFloatNotSupported
      else if \<not> opt_textures_present opts then Inl MissingRequiredTextures
      else Inr \<lparr>
        particleCount = opt_particleCount opts,
        edgeCount = opt_edgeCount opts,
        edgeCoarseMapStride = js_or (opt_edgeCoarseMapStride opts) (JNum 128),
        gravityWindow = js_or (opt_gravityWindow opts) (JNum 16),
        dt = js_or (opt_dt opts) (JNum 0.016),
        G = js_defined_or (opt_G opts) (JNum (- 0.0001)),
        springK = js_defined_or (opt_springK opts) (JNum 1.0),
        eps = js_defined_or (opt_eps opts) (JNum 0.1),
        damping = JNum 0.002,
        sfcResolution = js_or (opt_sfcResolution opts) (JNum 64.0),
        sortSpanSize = 128,
        passCounter = 0,
        renderCount = 0 \<rparr>)"

text \<open>An options object that names the required parts and leaves every optional number out.\<close>

definition minimal_options :: "nat \<Rightarrow> nat \<Rightarrow> layout_options" where
  "minimal_options n e = \<lparr>
     opt_ext_color_buffer_float = True,
     opt_textures_present = True,
     opt_particleCount = n,
     opt_edgeCount = e,
     opt_edgeCoarseMapStride = JUndefined,
     opt_gravityWindow = JUndefined,
     opt_dt = JUndefined,
     opt_G = JUndefined,
     opt_springK = JUndefined,
     opt_eps = JUndefined,
     opt_damping = JUndefined,
     opt_sfcResolution = JUndefined \<rparr>"

text \<open>An options object that passes an explicit \<open>0\<close> for every optional number.\<close>

definition zero_options :: layout_options where
  "zero_options = \<lparr>
     opt_ext_color_buffer_float = True,
     opt_textures_present = True,
     opt_particleCount = 3,
     opt_edgeCount = 0,
     opt_edgeCoarseMapStride = JNum 0,
     opt_gravityWindow = JNum 0,
     opt_dt = JNum 0,
     opt_G = JNum 0,
     opt_springK = JNum 0,
     opt_eps = JNum 0,
     opt_damping = JNum 0,
     opt_sfcResolution = JNum 0 \<rparr>"

definition zero_engine :: layout_engine where
  "zero_engine = \<lparr>
     particleCount = 3,
     edgeCount = 0,
     edgeCoarseMapStride = JNum 128,
     gravityWindow = JNum 16,
     dt = JNum 0.016,
     G = JNum 0,
     springK = JNum 0,
     eps = JNum 0,
     damping = JNum 0.002,
     sfcResolution = JNum 64,
     sortSpanSize = 128,
     passCounter = 0,
     renderCount = 0 \<rparr>"

text \<open>An options object that supplies a nonzero value for every optional number.\<close>

definition custom_options :: layout_options where
  "custom_options = \<lparr>
     opt_ext_color_buffer_float = True,
     opt_textures_present = True,
     opt_particleCount = 3,
     opt_edgeCount = 0,
     opt_edgeCoarseMapStride = JNum 64,
     opt_gravityWindow = JNum 8,
     opt_dt = JNum 0.1,
     opt_G = JNum (- 1),
     opt_springK = JNum 2,
     opt_eps = JNum 0.5,
     opt_damping = JNum 0.5,
     opt_sfcResolution = JNum 32 \<rparr>"

definition custom_engine :: layout_engine where
  "custom_engine = \<lparr>
     particleCount = 3,
     edgeCount = 0,
     edgeCoarseMapStride = JNum 64,
     gravityWindow = JNum 8,
     dt = JNum 0.1,
     G = JNum (- 1),
     springK = JNum 2,
     eps = JNum 0.5,
     damping = JNum 0.002,
     sfcResolution = JNum 32,
     sortSpanSize = 128,
     passCounter = 0,
     renderCount = 0 \<rparr>"

section \<open>Construction parameters\<close>

lemma constructor_Inr:
  assumes "GraphLayout_constructor opts = Inr e"
  shows "e = \<lparr>
        particleCount = opt_particleCount opts,
        edgeCount = opt_edgeCount opts,
        edgeCoarseMapStride = js_or (opt_edgeCoarseMapStride opts) (JNum 128),
        gravityWindow = js_or (opt_gravityWindow opts) (JNum 16),
        dt = js_or (opt_dt opts) (JNum 0.016),
        G = js_defined_or (opt_G opts) (JNum (- 0.0001)),
        springK = js_defined_or (opt_springK opts) (JNum 1.0),
        eps = js_defined_or (opt_eps opts) (JNum 0.1),
        damping = JNum 0.002,
        sfcResolution = js_or (opt_sfcResolution opts) (JNum 64.0),
        sortSpanSize = 128,
        passCounter = 0,
        renderCount = 0 \<rparr>"
  using assms unfolding GraphLayout_constructor_def by (simp split: if_splits)

lemma zero_options_constructed: "GraphLayout_constructor zero_options = Inr zero_engine"
  by (simp add: GraphLayout_constructor_def zero_options_def zero_engine_def js_or_def
      js_defined_or_def)

lemma custom_options_constructed: "GraphLayout_constructor custom_options = Inr custom_engine"
  by (simp add: GraphLayout_constructor_def custom_options_def custom_engine_def js_or_def
      js_defined_or_def)

text \<open>
  C9, as stated: every optional parameter, damping included, overrides its default when
  supplied. The constructor does not read a \<open>damping\<close> property: an options object
  with \<open>damping = 0.5\<close> builds an engine whose damping is \<open>0.002\<close>.
\<close>

theorem constructor_damping_counterexample:
  "GraphLayout_constructor custom_options = Inr custom_engine
   \<and> opt_damping custom_options = JNum 0.5
   \<and> damping custom_engine = JNum 0.002
   \<and> damping custom_engine \<noteq> opt_damping custom_options"
  by (simp add: GraphLayout_constructor_def custom_options_def custom_engine_def js_or_def
      js_defined_or_def)

text \<open>
  C9, amended. Construction applies the defaults 128, 16, 0.016, -0.0001, 1.0, 0.1 and
  64.0 to \<open>edgeCoarseMapStride\<close>, \<open>gravityWindow\<close>, \<open>dt\<close>, \<open>G\<close>, \<open>springK\<close>,
  \<open>eps\<close> and \<open>sfcResolution\<close> when the parameter is omitted. A supplied value
  of \<open>G\<close>, \<open>springK\<close> or \<open>eps\<close> always overrides the default; a supplied value of
  \<open>edgeCoarseMapStride\<close>, \<open>gravityWindow\<close>, \<open>dt\<close> or \<open>sfcResolution\<close> overrides
  it when it is truthy (neither \<open>0\<close> nor \<open>NaN\<close>). Damping is not a construction
  parameter: the engine's damping is \<open>0.002\<close> whatever the options object holds.
\<close>

theorem constructor_parameters:
  assumes "GraphLayout_constructor opts = Inr e"
  shows "(opt_edgeCoarseMapStride opts = JUndefined \<longrightarrow> edgeCoarseMapStride e = JNum 128)
       \<and> (opt_gravityWindow opts = JUndefined \<longrightarrow> gravityWindow e = JNum 16)
       \<and> (opt_dt opts = JUndefined \<longrightarrow> dt e = JNum 0.016)
       \<and> (opt_G opts = JUndefined \<longrightarrow> G e = JNum (- 0.0001))
       \<and> (opt_springK opts = JUndefined \<longrightarrow> springK e = JNum 1.0)
       \<and> (opt_eps opts = JUndefined \<longrightarrow> eps e = JNum 0.1)
       \<and> (opt_sfcResolution opts = JUndefined \<longrightarrow> sfcResolution e = JNum 64.0)
       \<and> (opt_G opts \<noteq> JUndefined \<longrightarrow> G e = opt_G opts)
       \<and> (opt_springK opts \<noteq> JUndefined \<longrightarrow> springK e = opt_springK opts)
       \<and> (opt_eps opts \<noteq> JUndefined \<longrightarrow> eps e = opt_eps opts)
       \<and> (truthy (opt_edgeCoarseMapStride opts)
            \<longrightarrow> edgeCoarseMapStride e = opt_edgeCoarseMapStride opts)
       \<and> (truthy (opt_gravityWindow opts) \<longrightarrow> gravityWindow e = opt_gravityWindow opts)
       \<and> (truthy (opt_dt opts) \<longrightarrow> dt e = opt_dt opts)
       \<and> (truthy (opt_sfcResolution opts) \<longrightarrow> sfcResolution e = opt_sfcResolution opts)
       \<and> damping e = JNum 0.002"
  unfolding constructor_Inr [OF assms] by (simp add: js_or_def js_defined_or_def)

theorem constructor_parameters_witness:
  "GraphLayout_constructor custom_options = Inr custom_engine
   \<and> edgeCoarseMapStride custom_engine = JNum 64
   \<and> gravityWindow custom_engine = JNum 8
   \<and> dt custom_engine = JNum 0.1
   \<and> G custom_engine = JNum (- 1)
   \<and> springK custom_engine = JNum 2
   \<and> eps custom_engine = JNum 0.5
   \<and> sfcResolution custom_engine = JNum 32
   \<and> damping custom_engine = JNum 0.002"
  using constructor_parameters [OF custom_options_constructed] custom_options_constructed
  by (simp add: custom_options_def)

text \<open>
  C10. The parameters \<open>dt\<close>, \<open>gravityWindow\<close>, \<open>edgeCoarseMapStride\<close> and
  \<open>sfcResolution\<close> are defaulted with \<open>||\<close>: an explicit \<open>0\<close> for any of them
  yields the default (an engine built with \<open>dt = 0\<close> has \<open>dt = 0.016\<close>), whereas
  \<open>G\<close>, \<open>springK\<close> and \<open>eps\<close> are compared against \<open>undefined\<close> and keep an
  explicit \<open>0\<close>.
\<close>

theorem constructor_zero_defaults:
  assumes "GraphLayout_constructor opts = Inr e"
  shows "(opt_dt opts = JNum 0 \<longrightarrow> dt e = JNum 0.016)
       \<and> (opt_gravityWindow opts = JNum 0 \<longrightarrow> gravityWindow e = JNum 16)
       \<and> (opt_edgeCoarseMapStride opts = JNum 0 \<longrightarrow> edgeCoarseMapStride e = JNum 128)
       \<and> (opt_sfcResolution opts = JNum 0 \<longrightarrow> sfcResolution e = JNum 64)
       \<and> (opt_G opts = JNum 0 \<longrightarrow> G e = JNum 0)
       \<and> (opt_springK opts = JNum 0 \<longrightarrow> springK e = JNum 0)
       \<and> (opt_eps opts = JNum 0 \<longrightarrow> eps e = JNum 0)"
  unfolding constructor_Inr [OF assms] by (simp add: js_or_def js_defined_or_def)

theorem constructor_zero_defaults_witness:
  "GraphLayout_constructor zero_options = Inr zero_engine
   \<and> dt zero_engine = JNum 0.016
   \<and> gravityWindow zero_engine = JNum 16
   \<and> edgeCoarseMapStride zero_engine = JNum 128
   \<and> sfcResolution zero_engine = JNum 64
   \<and> G zero_engine = JNum 0
   \<and> springK zero_engine = JNum 0
   \<and> eps zero_engine = JNum 0"
  using constructor_zero_defaults [OF zero_options_constructed] zero_options_constructed
  by (simp add: zero_options_def)

section \<open>Textures\<close>

text \<open>
  Every array of the engine is a two-dimensional texture; element \<open>i\<close> of an array kept
  in a texture of width \<open>w\<close> is the texel \<open>(i mod w, i div w)\<close>. A texture is modelled
  as a function from texel coordinates to texel values. Channels of float textures that
  hold integers (PIDs, edge offsets, edge targets, slot numbers) are modelled as
  \<open>int\<close>: the conversions \<open>floor(x + 0.5)\<close> and \<open>int(x)\<close> of the shaders are the
  identity on them.
\<close>

type_synonym 'a tex = "nat \<times> nat \<Rightarrow> 'a"

definition coord :: "nat \<Rightarrow> nat \<Rightarrow> nat \<times> nat" where
  "coord w i = (i mod w, i div w)"

text \<open>A texel of the id/mass texture: \<open>(PID, mass, tint, edgePtr)\<close>.\<close>

record idmass =
  pid :: int
  mass :: real
  tint :: real
  edgePtrStart :: real

text \<open>The PID of the particle in physical slot \<open>i\<close>.\<close>

definition PID :: "nat \<Rightarrow> idmass tex \<Rightarrow> nat \<Rightarrow> int" where
  "PID w texIdMass i = pid (texIdMass (coord w i))"

lemma coord_inj: "0 < w \<Longrightarrow> coord w i = coord w j \<Longrightarrow> i = j"
  unfolding coord_def by (metis div_mult_mod_eq prod.inject)

section \<open>Identity mirror (k-identity-mirror.js, \<open>KIdentityMirror\<close>)\<close>

text \<open>
  The vertex shader, for the point with \<open>gl_VertexID = pIndex\<close>: the texel the point is
  placed on, \<open>(mod(pid, w), floor(pid / w))\<close>, and the value \<open>v_physID\<close> it carries.
\<close>

definition identity_vertex :: "nat \<Rightarrow> idmass tex \<Rightarrow> nat \<Rightarrow> (int \<times> int) \<times> int" where
  "identity_vertex w texIdMass pIndex =
     (let tx = pIndex mod w;
          ty = pIndex div w;
          idMassTintEdgePtr = texIdMass (tx, ty);
          p = pid idMassTintEdgePtr;
          x = p mod int w;
          y = p div int w
      in ((x, y), int pIndex))"

text \<open>
  Rasterisation of one point of size 1 into a \<open>w \<times> h\<close> target: a point whose texel lies
  outside the viewport is clipped, any other point overwrites its texel with the
  fragment shader's output, which is \<open>v_physID\<close>.
\<close>

definition draw_point :: "nat \<Rightarrow> nat \<Rightarrow> int tex \<Rightarrow> (int \<times> int) \<times> int \<Rightarrow> int tex" where
  "draw_point w h target pt =
     (case pt of ((x, y), v) \<Rightarrow>
        if 0 \<le> x \<and> x < int w \<and> 0 \<le> y \<and> y < int h
        then target((nat x, nat y) := v) else target)"

text \<open>
  \<open>run\<close>: clear the identity texture to \<open>-1\<close>, then draw the points \<open>0 .. n-1\<close> in
  order (a later point overwrites an earlier one on the same texel).
\<close>

definition KIdentityMirror_run :: "nat \<Rightarrow> nat \<Rightarrow> nat \<Rightarrow> idmass tex \<Rightarrow> int tex" where
  "KIdentityMirror_run w h n texIdMass =
     fold (\<lambda>i target. draw_point w h target (identity_vertex w texIdMass i)) [0..<n] (\<lambda>_. - 1)"

text \<open>A \<open>2 \<times> 2\<close> id/mass texture with three particles, whose PIDs are 2, 0 and 3.\<close>

definition idmass_example :: "idmass tex" where
  "idmass_example c =
     \<lparr> pid = (if c = (0, 0) then 2 else if c = (1, 0) then 0 else if c = (0, 1) then 3 else 0),
       mass = 1, tint = 0, edgePtrStart = 0 \<rparr>"

lemma draw_step:
  assumes "0 < w" "0 \<le> PID w t i" "PID w t i < int (w * h)"
  shows "draw_point w h target (identity_vertex w t i) = target(coord w (nat (PID w t i)) := int i)"
proof -
  obtain k where k: "PID w t i = int k" using assms(2) by (metis nonneg_int_cases)
  with assms(3) have "int k < int (h * w)" by (simp add: mult.commute)
  then have "k < h * w" by (simp only: of_nat_less_iff)
  then have y: "k div w < h" by (rule less_mult_imp_div_less)
  have x: "k mod w < w" using assms(1) by simp
  have "identity_vertex w t i = ((int (k mod w), int (k div w)), int i)"
    using k by (simp add: identity_vertex_def PID_def coord_def Let_def zmod_int zdiv_int)
  then show ?thesis
    using x y k by (simp add: draw_point_def coord_def)
qed

lemma fold_draw:
  assumes "0 < w" "\<forall>i\<in>set is. 0 \<le> PID w t i \<and> PID w t i < int (w * h)"
  shows "fold (\<lambda>i target. draw_point w h target (identity_vertex w t i)) is tgt
       = fold (\<lambda>i target. target(coord w (nat (PID w t i)) := int i)) is tgt"
  using assms by (induction "is" arbitrary: tgt) (simp_all add: draw_step)

lemma fold_upd_notin:
  "k \<notin> key ` set is \<Longrightarrow> fold (\<lambda>i target. target(key i := val i)) is tgt k = tgt k"
  by (induction "is" arbitrary: tgt) auto

lemma fold_upd_in:
  "distinct (map key is) \<Longrightarrow> i \<in> set is \<Longrightarrow>
   fold (\<lambda>i target. target(key i := val i)) is tgt (key i) = val i"
proof (induction "is" arbitrary: tgt)
  case Nil
  then show ?case by simp
next
  case (Cons a as)
  show ?case
  proof (cases "i = a")
    case True
    with Cons.prems have "key a \<notin> key ` set as" by auto
    then have "fold (\<lambda>i target. target(key i := val i)) as (tgt(key a := val a)) (key a)
             = (tgt(key a := val a)) (key a)"
      by (rule fold_upd_notin)
    then show ?thesis using True by (simp del: fun_upd_apply add: fun_upd_same)
  next
    case False
    with Cons show ?thesis by auto
  qed
qed

text \<open>
  C3. After the identity-mirror kernel has run on the id/mass array, the identity
  texture holds \<open>identity[PID(slot i)] = i\<close> for every physical slot \<open>i < n\<close>, and
  every texel whose index is not the PID of a particle holds the sentinel \<open>-1\<close>,
  provided the PIDs are pairwise distinct and lie in \<open>[0, w * h)\<close>. The texel
  \<open>identity[k]\<close> is the one at \<open>coord w k\<close>, where the relocation kernel reads it.
\<close>

theorem identity_inverse:
  assumes w: "0 < w"
    and rng: "\<forall>i<n. 0 \<le> PID w t i \<and> PID w t i < int (w * h)"
    and dist: "\<forall>i<n. \<forall>j<n. PID w t i = PID w t j \<longrightarrow> i = j"
  shows "(\<forall>i<n. KIdentityMirror_run w h n t (coord w (nat (PID w t i))) = int i)
       \<and> (\<forall>k. (\<forall>i<n. PID w t i \<noteq> int k) \<longrightarrow> KIdentityMirror_run w h n t (coord w k) = - 1)"
proof -
  let ?key = "\<lambda>i. coord w (nat (PID w t i))"
  have run: "KIdentityMirror_run w h n t
           = fold (\<lambda>i target. target(?key i := int i)) [0..<n] (\<lambda>_. - 1)"
    unfolding KIdentityMirror_run_def using fold_draw[OF w, of "[0..<n]" t h] rng by simp
  have inj: "inj_on ?key (set [0..<n])"
  proof (rule inj_onI)
    fix i j assume a: "i \<in> set [0..<n]" "j \<in> set [0..<n]" "?key i = ?key j"
    then have "nat (PID w t i) = nat (PID w t j)" using coord_inj[OF w] by blast
    then have "PID w t i = PID w t j"
      using rng a by (metis atLeastLessThan_iff eq_nat_nat_iff set_upt)
    then show "i = j" using dist a by simp
  qed
  have d: "distinct (map ?key [0..<n])" using inj by (simp add: distinct_map)
  have 1: "\<forall>i<n. KIdentityMirror_run w h n t (?key i) = int i"
    using fold_upd_in[OF d, of _ int] by (simp add: run)
  have 2: "\<forall>k. (\<forall>i<n. PID w t i \<noteq> int k) \<longrightarrow> KIdentityMirror_run w h n t (coord w k) = - 1"
  proof (intro allI impI)
    fix k assume k: "\<forall>i<n. PID w t i \<noteq> int k"
    have "coord w k \<notin> ?key ` set [0..<n]"
    proof
      assume "coord w k \<in> ?key ` set [0..<n]"
      then obtain i where i: "i < n" "coord w k = ?key i" by auto
      then have "k = nat (PID w t i)" using coord_inj[OF w] by blast
      then show False using k i rng by auto
    qed
    then show "KIdentityMirror_run w h n t (coord w k) = - 1"
      by (simp add: run fold_upd_notin)
  qed
  show ?thesis using 1 2 by blast
qed

lemma idmass_example_pids:
  "PID 2 idmass_example 0 = 2" "PID 2 idmass_example 1 = 0" "PID 2 idmass_example 2 = 3"
  "PID 2 idmass_example (Suc 0) = 0"
  by (simp_all add: PID_def coord_def idmass_example_def)

lemma all_less_3: "(\<forall>i<3. P i) = (P 0 \<and> P 1 \<and> P (2::nat))"
  by (auto simp: numeral_3_eq_3 less_Suc_eq numeral_2_eq_2)

theorem identity_inverse_witness:
  "KIdentityMirror_run 2 2 3 idmass_example (coord 2 2) = 0
   \<and> KIdentityMirror_run 2 2 3 idmass_example (coord 2 0) = 1
   \<and> KIdentityMirror_run 2 2 3 idmass_example (coord 2 3) = 2
   \<and> KIdentityMirror_run 2 2 3 idmass_example (coord 2 1) = - 1"
proof -
  have w: "0 < (2::nat)" by simp
  have rng: "\<forall>i<3. 0 \<le> PID 2 idmass_example i \<and> PID 2 idmass_example i < int (2 * 2)"
    by (simp add: all_less_3 idmass_example_pids)
  have dist: "\<forall>i<3. \<forall>j<3. PID 2 idmass_example i = PID 2 idmass_example j \<longrightarrow> i = j"
    by (simp add: all_less_3 idmass_example_pids)
  have absent: "\<forall>i<3. PID 2 idmass_example i \<noteq> int 1"
    by (simp add: all_less_3 idmass_example_pids)
  from identity_inverse [OF w rng dist] absent show ?thesis
    by (simp add: all_less_3 idmass_example_pids)
qed

section \<open>Coarse map (\<open>KEdgeCoarseMap\<close>, shader \<open>FS_COARSE_MAP\<close>)\<close>

text \<open>
  \<open>getStart\<close>: an index at or beyond the particle count reads as the constant
  \<open>1.0e15\<close>; any other index reads its texel of the edge-pointer texture.
\<close>

definition getStart :: "nat \<Rightarrow> nat \<Rightarrow> int tex \<Rightarrow> nat \<Rightarrow> int" where
  "getStart u_particleCount dims_x u_texEdgePtr idx =
     (if idx \<ge> u_particleCount then 1000000000000000
      else u_texEdgePtr (idx mod dims_x, idx div dims_x))"

text \<open>
  The binary search. The first argument counts the iterations that are left of the
  17 the \<open>for\<close> loop allows; \<open>mid = low\<close> leaves the loop early.
\<close>

fun coarse_search :: "nat \<Rightarrow> nat \<Rightarrow> int tex \<Rightarrow> int \<Rightarrow> nat \<Rightarrow> nat \<Rightarrow> nat \<Rightarrow> nat" where
  "coarse_search n dims_x tx targetIndex 0 low high = low"
| "coarse_search n dims_x tx targetIndex (Suc k) low high =
     (let mid = (low + high) div 2 in
      if mid = low then low
      else if getStart n dims_x tx mid \<le> targetIndex
           then coarse_search n dims_x tx targetIndex k mid high
           else coarse_search n dims_x tx targetIndex k low mid)"

text \<open>The fragment shader's \<open>main\<close> for the coarse texel \<open>(x, y)\<close>.\<close>

definition FS_COARSE_MAP_main ::
  "nat \<Rightarrow> nat \<Rightarrow> nat \<Rightarrow> nat \<Rightarrow> int tex \<Rightarrow> nat \<times> nat \<Rightarrow> int" where
  "FS_COARSE_MAP_main u_particleCount dims_x u_stride u_coarseWidth u_texEdgePtr c =
     (case c of (x, y) \<Rightarrow>
        let coarseIdx = y * u_coarseWidth + x;
            targetIndex = int coarseIdx * int u_stride
        in int (coarse_search u_particleCount dims_x u_texEdgePtr targetIndex 17 0 u_particleCount))"

text \<open>
  An edge-pointer texture of width 2 for one particle that owns 257 edges:
  \<open>ptr = [0, 257]\<close>.
\<close>

definition ptr_one_owner :: "int tex" where
  "ptr_one_owner c = (if c = (0, 0) then 0 else if c = (1, 0) then 257 else 0)"

text \<open>
  An edge-pointer texture of width 4 for three particles: \<open>ptr = [0, 0, 200, 300]\<close>.
\<close>

definition ptr_three_owners :: "int tex" where
  "ptr_three_owners c =
     (if c = (0, 0) then 0 else if c = (1, 0) then 0 else if c = (2, 0) then 200
      else if c = (3, 0) then 300 else 0)"

lemma coarse_search_bracket:
  assumes "low < high" "high \<le> n"
    and "getStart n w tx low \<le> t" "t < getStart n w tx high"
    and "high - low \<le> 2 ^ k"
  shows "getStart n w tx (coarse_search n w tx t k low high) \<le> t
       \<and> t < getStart n w tx (Suc (coarse_search n w tx t k low high))
       \<and> coarse_search n w tx t k low high < n"
  using assms
proof (induction k arbitrary: low high)
  case 0
  then have "high = Suc low" by simp
  with 0 show ?case by simp
next
  case (Suc k)
  let ?mid = "(low + high) div 2"
  show ?case
  proof (cases "?mid = low")
    case True
    then have "high = Suc low" using Suc.prems(1) by linarith
    with True Suc.prems show ?thesis by (simp add: Let_def)
  next
    case False
    then have lm: "low < ?mid" and mh: "?mid < high" using Suc.prems(1) by linarith+
    have d: "high - low \<le> 2 * 2 ^ k" using Suc.prems(5) by simp
    show ?thesis
    proof (cases "getStart n w tx ?mid \<le> t")
      case True
      have "high - ?mid \<le> 2 ^ k" using d lm mh by linarith
      from Suc.IH[OF mh Suc.prems(2) True Suc.prems(4) this] False True
      show ?thesis by (simp add: Let_def)
    next
      case le: False
      have b: "?mid - low \<le> 2 ^ k" using d lm mh by linarith
      have m: "?mid \<le> n" using mh Suc.prems(2) by linarith
      have g: "t < getStart n w tx ?mid" using le by simp
      from Suc.IH[OF lm m Suc.prems(3) g b] False le
      show ?thesis by (simp add: Let_def)
    qed
  qed
qed

text \<open>
  C8, as stated: the kernel emits the largest \<open>p\<close> with \<open>ptr_new[p] \<le> t\<close>, where only
  the indices past \<open>N\<close> read as the sentinel. With one particle, \<open>ptr_new = [0, 257]\<close>,
  stride 128 and a \<open>2 \<times> 2\<close> coarse map (the dimensions the orchestrator computes for
  257 edges), the coarse slot \<open>k = 3\<close> at texel \<open>(1, 1)\<close> has \<open>t = 384\<close>. Index
  \<open>N = 1\<close> is not past \<open>N\<close> and \<open>ptr_new[1] = 257 \<le> 384\<close>, so the largest such \<open>p\<close> is 1;
  the kernel emits 0.
\<close>

theorem coarse_map_counterexample:
  "FS_COARSE_MAP_main 1 2 128 2 ptr_one_owner (1, 1) = 0
   \<and> ptr_one_owner (coord 2 1) = 257
   \<and> (257::int) \<le> int (1 * 2 + 1) * int 128
   \<and> \<not> (1::nat) > 1"
  by code_simp

text \<open>
  C8, amended. For each coarse slot \<open>k\<close> with target edge index \<open>t = k * S\<close> below the
  sentinel value \<open>1e15\<close>, given at least one and at most 131072 particles and
  \<open>ptr_new\<close> monotone non-decreasing on \<open>[0, N)\<close> with \<open>ptr_new[0] = 0\<close>, the kernel
  emits the largest \<open>p\<close> in \<open>[0, N)\<close> with \<open>ptr_new[p] \<le> t\<close>: index \<open>N\<close> itself and every
  index beyond it read as the sentinel.
\<close>

theorem coarse_map_largest:
  assumes n: "0 < n" "n \<le> 131072"
    and mono: "\<forall>i j. i \<le> j \<and> j < n \<longrightarrow> tx (coord w i) \<le> tx (coord w j)"
    and zero: "tx (coord w 0) = 0"
    and t: "int (y * cw + x) * int s < 1000000000000000"
    and p: "p = nat (FS_COARSE_MAP_main n w s cw tx (x, y))"
  shows "p < n \<and> tx (coord w p) \<le> int (y * cw + x) * int s
       \<and> (\<forall>q<n. tx (coord w q) \<le> int (y * cw + x) * int s \<longrightarrow> q \<le> p)"
proof -
  let ?t = "int (y * cw + x) * int s"
  have p': "p = coarse_search n w tx ?t 17 0 n"
    using p by (simp add: FS_COARSE_MAP_main_def Let_def)
  have rd: "\<And>i. i < n \<Longrightarrow> getStart n w tx i = tx (coord w i)"
    by (simp add: getStart_def coord_def)
  have lo: "getStart n w tx 0 \<le> ?t" using n zero by (simp add: rd)
  have hi: "?t < getStart n w tx n" using t by (simp add: getStart_def)
  have sz: "n - 0 \<le> 2 ^ 17" using n by simp
  from coarse_search_bracket[OF n(1) order_refl lo hi sz]
  have b: "getStart n w tx p \<le> ?t" "?t < getStart n w tx (Suc p)" "p < n"
    by (simp_all add: p')
  have max: "q \<le> p" if q: "q < n" "tx (coord w q) \<le> ?t" for q
  proof (rule ccontr)
    assume "\<not> q \<le> p"
    then have sp: "Suc p \<le> q" by simp
    then have "Suc p < n" using q by simp
    then have "?t < tx (coord w (Suc p))" using b(2) by (simp add: rd)
    moreover have "tx (coord w (Suc p)) \<le> tx (coord w q)" using mono sp q by blast
    ultimately show False using q by simp
  qed
  show ?thesis using b rd max by auto
qed

lemma coarse_three_owners_value:
  "FS_COARSE_MAP_main 3 4 128 2 ptr_three_owners (1, 0) = 1"
  by code_simp

lemma all_less_3_pairs: "(\<forall>i j. i \<le> j \<and> j < 3 \<longrightarrow> P i j)
   = (P 0 0 \<and> P 0 1 \<and> P 0 2 \<and> P 1 1 \<and> P 1 2 \<and> P 2 (2::nat))"
proof -
  have "(\<forall>i j. i \<le> j \<and> j < 3 \<longrightarrow> P i j) = (\<forall>j<3. \<forall>i<3. i \<le> j \<longrightarrow> P i j)"
    by (metis le_less_trans)
  also have "\<dots> = (P 0 0 \<and> P 0 1 \<and> P 0 2 \<and> P 1 1 \<and> P 1 2 \<and> P 2 2)"
    unfolding all_less_3 by auto
  finally show ?thesis .
qed

theorem coarse_map_largest_witness:
  "nat (FS_COARSE_MAP_main 3 4 128 2 ptr_three_owners (1, 0)) = 1
   \<and> ptr_three_owners (coord 4 1) \<le> int (0 * 2 + 1) * int 128
   \<and> \<not> ptr_three_owners (coord 4 2) \<le> int (0 * 2 + 1) * int 128"
proof -
  have n: "0 < (3::nat)" "(3::nat) \<le> 131072" by simp_all
  have mono: "\<forall>i j. i \<le> j \<and> j < 3 \<longrightarrow>
      ptr_three_owners (coord 4 i) \<le> ptr_three_owners (coord 4 j)"
    unfolding all_less_3_pairs by (simp add: ptr_three_owners_def coord_def)
  have zero: "ptr_three_owners (coord 4 0) = 0"
    by (simp add: ptr_three_owners_def coord_def)
  have t: "int (0 * 2 + 1) * int 128 < 1000000000000000" by simp
  from coarse_map_largest [OF n mono zero t refl]
  have "nat (FS_COARSE_MAP_main 3 4 128 2 ptr_three_owners (1, 0)) < 3"
    and "\<forall>q<3. ptr_three_owners (coord 4 q) \<le> int (0 * 2 + 1) * int 128
          \<longrightarrow> q \<le> nat (FS_COARSE_MAP_main 3 4 128 2 ptr_three_owners (1, 0))"
    and "ptr_three_owners (coord 4 (nat (FS_COARSE_MAP_main 3 4 128 2 ptr_three_owners (1, 0))))
          \<le> int (0 * 2 + 1) * int 128"
    by blast+
  then show ?thesis
    unfolding all_less_3 coarse_three_owners_value
    by (simp add: ptr_three_owners_def coord_def)
qed

section \<open>Vectors\<close>

text \<open>
  \<open>vec3\<close> with the componentwise operations of the shading language. Floating-point
  numbers are modelled as reals: rounding, overflow and \<open>NaN\<close> are outside the model.
\<close>

datatype vec3 = Vec3 (cx: real) (cy: real) (cz: real)

instantiation vec3 :: ab_group_add
begin

definition zero_vec3 :: vec3 where
  "zero_vec3 = Vec3 0 0 0"

definition plus_vec3 :: "vec3 \<Rightarrow> vec3 \<Rightarrow> vec3" where
  "plus_vec3 a b = Vec3 (cx a + cx b) (cy a + cy b) (cz a + cz b)"

definition minus_vec3 :: "vec3 \<Rightarrow> vec3 \<Rightarrow> vec3" where
  "minus_vec3 a b = Vec3 (cx a - cx b) (cy a - cy b) (cz a - cz b)"

definition uminus_vec3 :: "vec3 \<Rightarrow> vec3" where
  "uminus_vec3 a = Vec3 (- cx a) (- cy a) (- cz a)"

instance
  by standard (simp_all add: zero_vec3_def plus_vec3_def minus_vec3_def uminus_vec3_def)

end

text \<open>\<open>v * k\<close> for a vector \<open>v\<close> and a scalar \<open>k\<close>, and \<open>dot\<close>.\<close>

definition scale :: "real \<Rightarrow> vec3 \<Rightarrow> vec3" where
  "scale k v = Vec3 (cx v * k) (cy v * k) (cz v * k)"

definition dot :: "vec3 \<Rightarrow> vec3 \<Rightarrow> real" where
  "dot a b = cx a * cx b + cy a * cy b + cz a * cz b"

text \<open>A \<open>vec4\<close> texel is kept as its \<open>xyz\<close> part and its \<open>w\<close> channel.\<close>

type_synonym vec4 = "vec3 \<times> real"

section \<open>Physics integrator (k-physics-simulation.js, \<open>KPhysicsSimulation\<close>)\<close>

text \<open>The compile-time constants and the uniforms of the fragment shader.\<close>

record physics_params =
  WINDOW :: nat
  DATA_W :: nat
  PARTICLE_COUNT :: nat
  EDGE_STORE_W :: nat
  u_dt :: real
  u_G :: real
  u_springK :: real
  u_eps :: real
  u_damping :: real

text \<open>\<open>texelFetch\<close> at the coordinate \<open>(i % w, i / w)\<close> for a signed index \<open>i\<close>.\<close>

definition fetch_at :: "'a tex \<Rightarrow> nat \<Rightarrow> int \<Rightarrow> 'a" where
  "fetch_at t w i = t (nat (i mod int w), nat (i div int w))"

definition getSFCKey :: "vec3 \<Rightarrow> real" where
  "getSFCKey p =
     (let l1 = \<bar>cx p\<bar> + \<bar>cy p\<bar> + \<bar>cz p\<bar> + 1 / 10 ^ 20;
          uvx = cx p / l1;
          uvy = cy p / l1;
          uvx' = (if cz p < 0 then (1 - \<bar>uvy\<bar>) * (if uvx \<ge> 0 then 1 else - 1) else uvx);
          uvy' = (if cz p < 0 then (1 - \<bar>uvx\<bar>) * (if uvy \<ge> 0 then 1 else - 1) else uvy)
      in uvx' + uvy' * 2)"

definition fetchPos :: "physics_params \<Rightarrow> vec4 tex \<Rightarrow> int \<Rightarrow> vec4" where
  "fetchPos prm uPos i = fetch_at uPos (DATA_W prm) i"

definition fetchMass :: "physics_params \<Rightarrow> idmass tex \<Rightarrow> int \<Rightarrow> real" where
  "fetchMass prm uMass i = mass (fetch_at uMass (DATA_W prm) i)"

definition fetchNextEdgePtr :: "physics_params \<Rightarrow> int tex \<Rightarrow> int \<Rightarrow> int" where
  "fetchNextEdgePtr prm uEdgePtr idx = (let nextIdx = idx + 1 in fetch_at uEdgePtr (DATA_W prm) nextIdx)"

text \<open>One iteration of the near-field loop, for the loop variable \<open>i\<close>.\<close>

definition gravity_step ::
  "physics_params \<Rightarrow> vec4 tex \<Rightarrow> idmass tex \<Rightarrow> int \<Rightarrow> vec3 \<Rightarrow> int \<Rightarrow> vec3 \<Rightarrow> vec3" where
  "gravity_step prm uPos uMass idx p i acc =
     (if i = 0 then acc
      else let t = idx + i in
        if t < 0 \<or> t \<ge> int (PARTICLE_COUNT prm) then acc
        else let otherA = fetchPos prm uPos t;
                 dp = fst otherA - p;
                 d2 = dot dp dp + u_eps prm;
                 inv = 1 / sqrt d2;
                 inv3 = inv * inv * inv;
                 GM = u_G prm * fetchMass prm uMass t
             in acc + scale (GM * inv3) dp)"

text \<open>One iteration of the edge loop, for the edge index \<open>e\<close>.\<close>

definition spring_step ::
  "physics_params \<Rightarrow> vec4 tex \<Rightarrow> int tex \<Rightarrow> vec3 \<Rightarrow> int \<Rightarrow> vec3 \<Rightarrow> vec3" where
  "spring_step prm uPos uEdgeStore p e acc =
     (let targetPhys = fetch_at uEdgeStore (EDGE_STORE_W prm) e in
      if targetPhys \<ge> 0
      then let targetA = fetchPos prm uPos targetPhys
           in acc + scale (u_springK prm) (fst targetA - p)
      else acc)"

text \<open>
  The fragment shader's \<open>main\<close> for the point with index \<open>idx\<close>: \<open>None\<close> is
  \<open>discard\<close>, otherwise the three outputs \<open>oPos\<close>, \<open>oVel\<close>, \<open>oMass\<close>.
\<close>

definition KPhysicsSimulation_main ::
  "physics_params \<Rightarrow> vec4 tex \<Rightarrow> vec4 tex \<Rightarrow> idmass tex \<Rightarrow> int tex \<Rightarrow> int tex \<Rightarrow> nat
   \<Rightarrow> (vec4 \<times> vec4 \<times> idmass) option" where
  "KPhysicsSimulation_main prm uPos uVel uMass uEdgePtr uEdgeStore vIdx =
     (let idx = int vIdx in
      if idx \<ge> int (PARTICLE_COUNT prm) then None
      else
        let posSFC = fetch_at uPos (DATA_W prm) idx;
            vel = fetch_at uVel (DATA_W prm) idx;
            idMass = fetch_at uMass (DATA_W prm) idx;
            p = fst posSFC;
            v = fst vel;
            acc0 = 0;
            acc1 = fold (gravity_step prm uPos uMass idx p) [- int (WINDOW prm)..int (WINDOW prm)] acc0;
            edgeStart = fetch_at uEdgePtr (DATA_W prm) idx;
            edgeEnd = fetchNextEdgePtr prm uEdgePtr idx;
            acc = fold (spring_step prm uPos uEdgeStore p) [edgeStart..edgeEnd - 1] acc1;
            v_next = scale (1 - u_damping prm) (v + scale (u_dt prm) acc);
            p_next = p + scale (u_dt prm) v_next
        in Some ((p_next, getSFCKey p_next), (v_next, snd vel), idMass))"

subsection \<open>The integrator as the specification words it\<close>

text \<open>
  Position and mass of the particle in slot \<open>j\<close>, the edge offsets \<open>ptr[i]\<close> and the
  edge targets \<open>store[e]\<close>, read from the arrays the textures hold.
\<close>

definition pos_of :: "physics_params \<Rightarrow> vec4 tex \<Rightarrow> int \<Rightarrow> vec3" where
  "pos_of prm uPos j = fst (fetch_at uPos (DATA_W prm) j)"

definition mass_of :: "physics_params \<Rightarrow> idmass tex \<Rightarrow> int \<Rightarrow> real" where
  "mass_of prm uMass j = mass (fetch_at uMass (DATA_W prm) j)"

text \<open>
  Near-field gravity on slot \<open>i\<close>: the sum over \<open>j \<in> [i - W, i + W] \<setminus> {i}\<close> clamped to
  \<open>[0, N)\<close> of \<open>G m\<^sub>j (p\<^sub>j - p\<^sub>i) / (|p\<^sub>j - p\<^sub>i|\<^sup>2 + eps)\<^sup>3\<^sup>/\<^sup>2\<close>.
\<close>

definition spec_gravity :: "physics_params \<Rightarrow> vec4 tex \<Rightarrow> idmass tex \<Rightarrow> int \<Rightarrow> vec3" where
  "spec_gravity prm uPos uMass i =
     (\<Sum>j \<in> {j \<in> {i - int (WINDOW prm)..i + int (WINDOW prm)}.
               j \<noteq> i \<and> 0 \<le> j \<and> j < int (PARTICLE_COUNT prm)}.
        scale (u_G prm * mass_of prm uMass j
               / (dot (pos_of prm uPos j - pos_of prm uPos i) (pos_of prm uPos j - pos_of prm uPos i)
                  + u_eps prm) powr (3 / 2))
              (pos_of prm uPos j - pos_of prm uPos i))"

text \<open>
  Spring term on slot \<open>i\<close>: \<open>springK (p\<^sub>t - p\<^sub>i)\<close> for every edge index \<open>e\<close> in
  \<open>[ptr[i], ptr[i+1])\<close> whose target \<open>t = store[e]\<close> is not the sentinel.
\<close>

definition spec_springs :: "physics_params \<Rightarrow> vec4 tex \<Rightarrow> int tex \<Rightarrow> int tex \<Rightarrow> int \<Rightarrow> vec3" where
  "spec_springs prm uPos uEdgePtr uEdgeStore i =
     (\<Sum>e \<in> {e \<in> {fetch_at uEdgePtr (DATA_W prm) i..<fetch_at uEdgePtr (DATA_W prm) (i + 1)}.
               fetch_at uEdgeStore (EDGE_STORE_W prm) e \<noteq> - 1}.
        scale (u_springK prm)
              (pos_of prm uPos (fetch_at uEdgeStore (EDGE_STORE_W prm) e) - pos_of prm uPos i))"

subsection \<open>A two-particle example\<close>

text \<open>
  Two particles in a texture of width 2, at the origin and at \<open>(1, 0, 0)\<close>, both
  at rest and of mass 1; particle 0 owns the single edge, whose target is slot 1:
  \<open>ptr = [0, 1, 1]\<close>, \<open>store = [1]\<close>.
\<close>

definition prm_two :: physics_params where
  "prm_two = \<lparr> WINDOW = 16, DATA_W = 2, PARTICLE_COUNT = 2, EDGE_STORE_W = 1,
     u_dt = 0.1, u_G = - 0.0001, u_springK = 1, u_eps = 0.1, u_damping = 0.002 \<rparr>"

definition pos_two :: "vec4 tex" where
  "pos_two c = (if c = (1, 0) then (Vec3 1 0 0, 0) else (Vec3 0 0 0, 0))"

definition vel_two :: "vec4 tex" where
  "vel_two c = (Vec3 0 0 0, 0)"

definition mass_two :: "idmass tex" where
  "mass_two c = \<lparr> pid = (if c = (1, 0) then 1 else 0), mass = 1, tint = 0, edgePtrStart = 0 \<rparr>"

definition ptr_two :: "int tex" where
  "ptr_two c = (if c = (0, 0) then 0 else 1)"

definition store_two :: "int tex" where
  "store_two c = 1"

lemma fold_cond_add:
  fixes f :: "'a \<Rightarrow> vec3"
  assumes "\<And>x acc. step x acc = (if c x then acc + f x else acc)"
  shows "fold step xs acc = acc + sum_list (map f (filter c xs))"
  by (induction xs arbitrary: acc) (simp_all add: assms add.assoc)

lemma fold_cond_add_set:
  fixes f :: "int \<Rightarrow> vec3"
  assumes "\<And>x acc. step x acc = (if c x then acc + f x else acc)"
  shows "fold step [a..b] acc = acc + (\<Sum>x \<in> {x \<in> {a..b}. c x}. f x)"
proof -
  have "sum_list (map f (filter c [a..b])) = sum f (set (filter c [a..b]))"
    by (rule sum.distinct_set_conv_list [symmetric]) simp
  also have "set (filter c [a..b]) = {x \<in> {a..b}. c x}" by auto
  finally show ?thesis by (simp add: fold_cond_add [OF assms])
qed

lemma inv_cubed:
  assumes "0 < d2"
  shows "1 / sqrt d2 * (1 / sqrt d2) * (1 / sqrt d2) = 1 / d2 powr (3 / 2)"
proof -
  have "d2 powr (3 / 2) = (d2 powr (1 / 2)) powr 3" by (simp add: powr_powr)
  also have "\<dots> = (sqrt d2) powr 3" using assms by (simp add: powr_half_sqrt)
  also have "\<dots> = sqrt d2 ^ 3" using assms by (simp add: powr_numeral)
  finally show ?thesis by (simp add: power3_eq_cube)
qed

lemma dot_self_nonneg: "0 \<le> dot a a"
  by (simp add: dot_def)

text \<open>
  C5. For every particle slot \<open>i < N\<close> the integrator computes the acceleration as the
  near-field sum plus the spring sum, sets \<open>v' = (v + a dt) (1 - damping)\<close> and
  \<open>p' = p + v' dt\<close>, and writes \<open>p'\<close> with the recomputed SFC key, \<open>v'\<close> with the old
  \<open>w\<close> channel, and the id/mass texel unchanged. The softening \<open>eps\<close> is positive, so
  that the power \<open>3/2\<close> is taken of a positive number, and the edge-store entries of
  the particle are physical slots or the sentinel \<open>-1\<close>, as the data model demands.
\<close>

theorem physics_integrator:
  assumes i: "i < PARTICLE_COUNT prm" and eps: "0 < u_eps prm"
    and store: "\<forall>e \<in> {fetch_at uEdgePtr (DATA_W prm) (int i)..<fetch_at uEdgePtr (DATA_W prm) (int i + 1)}.
                 fetch_at uEdgeStore (EDGE_STORE_W prm) e = - 1
                 \<or> 0 \<le> fetch_at uEdgeStore (EDGE_STORE_W prm) e"
  shows "KPhysicsSimulation_main prm uPos uVel uMass uEdgePtr uEdgeStore i =
     (let p = pos_of prm uPos (int i);
          v = fst (fetch_at uVel (DATA_W prm) (int i));
          a = spec_gravity prm uPos uMass (int i)
              + spec_springs prm uPos uEdgePtr uEdgeStore (int i);
          v' = scale (1 - u_damping prm) (v + scale (u_dt prm) a);
          p' = p + scale (u_dt prm) v'
      in Some ((p', getSFCKey p'), (v', snd (fetch_at uVel (DATA_W prm) (int i))),
               fetch_at uMass (DATA_W prm) (int i)))"
proof -
  let ?p = "pos_of prm uPos (int i)"
  let ?g = "\<lambda>j. scale (u_G prm * mass_of prm uMass j
               / (dot (pos_of prm uPos j - ?p) (pos_of prm uPos j - ?p) + u_eps prm) powr (3 / 2))
              (pos_of prm uPos j - ?p)"
  let ?cg = "\<lambda>k. k \<noteq> 0 \<and> 0 \<le> int i + k \<and> int i + k < int (PARTICLE_COUNT prm)"
  have gstep: "gravity_step prm uPos uMass (int i) ?p k acc
             = (if ?cg k then acc + ?g (int i + k) else acc)" for k acc
  proof -
    have "0 < dot (pos_of prm uPos (int i + k) - ?p) (pos_of prm uPos (int i + k) - ?p) + u_eps prm"
      using eps dot_self_nonneg [of "pos_of prm uPos (int i + k) - ?p"] by linarith
    from inv_cubed [OF this] show ?thesis
      by (simp add: gravity_step_def Let_def fetchPos_def fetchMass_def pos_of_def mass_of_def
          not_less not_le)
  qed
  have g1: "fold (gravity_step prm uPos uMass (int i) ?p) [- int (WINDOW prm)..int (WINDOW prm)] 0
          = (\<Sum>k \<in> {k \<in> {- int (WINDOW prm)..int (WINDOW prm)}. ?cg k}. ?g (int i + k))"
    using fold_cond_add_set [of "gravity_step prm uPos uMass (int i) ?p" ?cg "\<lambda>k. ?g (int i + k)"
        "- int (WINDOW prm)" "int (WINDOW prm)" 0, OF gstep]
    by simp
  have g2: "(\<Sum>k \<in> {k \<in> {- int (WINDOW prm)..int (WINDOW prm)}. ?cg k}. ?g (int i + k))
          = spec_gravity prm uPos uMass (int i)"
    unfolding spec_gravity_def
  proof (rule sum.reindex_bij_witness [where i = "\<lambda>j. j - int i" and j = "\<lambda>k. int i + k"])
  qed auto
  have g: "fold (gravity_step prm uPos uMass (int i) ?p) [- int (WINDOW prm)..int (WINDOW prm)] 0
         = spec_gravity prm uPos uMass (int i)"
    using g1 g2 by (simp only:)
  let ?s = "\<lambda>e. scale (u_springK prm)
              (pos_of prm uPos (fetch_at uEdgeStore (EDGE_STORE_W prm) e) - ?p)"
  let ?cs = "\<lambda>e. fetch_at uEdgeStore (EDGE_STORE_W prm) e \<ge> 0"
  have sstep: "spring_step prm uPos uEdgeStore ?p e acc = (if ?cs e then acc + ?s e else acc)"
    for e acc
    by (simp add: spring_step_def Let_def fetchPos_def pos_of_def)
  have s1: "fold (spring_step prm uPos uEdgeStore ?p)
              [fetch_at uEdgePtr (DATA_W prm) (int i)..fetch_at uEdgePtr (DATA_W prm) (int i + 1) - 1] acc
          = acc + spec_springs prm uPos uEdgePtr uEdgeStore (int i)" for acc
  proof -
    have "{e \<in> {fetch_at uEdgePtr (DATA_W prm) (int i)..fetch_at uEdgePtr (DATA_W prm) (int i + 1) - 1}. ?cs e}
        = {e \<in> {fetch_at uEdgePtr (DATA_W prm) (int i)..<fetch_at uEdgePtr (DATA_W prm) (int i + 1)}.
             fetch_at uEdgeStore (EDGE_STORE_W prm) e \<noteq> - 1}"
      using store by force
    then show ?thesis
      using fold_cond_add_set [of "spring_step prm uPos uEdgeStore ?p" ?cs ?s _ _ acc, OF sstep]
      by (simp add: spec_springs_def)
  qed
  show ?thesis
    using i
    by (simp add: KPhysicsSimulation_main_def Let_def fetchNextEdgePtr_def g s1 pos_of_def [symmetric])
qed

theorem physics_integrator_witness:
  "KPhysicsSimulation_main prm_two pos_two vel_two mass_two ptr_two store_two 0 =
     (let p = pos_of prm_two pos_two (int 0);
          v = fst (fetch_at vel_two (DATA_W prm_two) (int 0));
          a = spec_gravity prm_two pos_two mass_two (int 0)
              + spec_springs prm_two pos_two ptr_two store_two (int 0);
          v' = scale (1 - u_damping prm_two) (v + scale (u_dt prm_two) a);
          p' = p + scale (u_dt prm_two) v'
      in Some ((p', getSFCKey p'), (v', snd (fetch_at vel_two (DATA_W prm_two) (int 0))),
               fetch_at mass_two (DATA_W prm_two) (int 0)))"
proof -
  have i: "0 < PARTICLE_COUNT prm_two" by (simp add: prm_two_def)
  have e: "0 < u_eps prm_two" by (simp add: prm_two_def)
  have s: "\<forall>e \<in> {fetch_at ptr_two (DATA_W prm_two) (int 0)..<fetch_at ptr_two (DATA_W prm_two) (int 0 + 1)}.
             fetch_at store_two (EDGE_STORE_W prm_two) e = - 1
             \<or> 0 \<le> fetch_at store_two (EDGE_STORE_W prm_two) e"
    by (simp add: fetch_at_def store_two_def)
  show ?thesis by (rule physics_integrator [OF i e s])
qed

section \<open>Sort encoder (\<open>KSortEncoder\<close>)\<close>

text \<open>
  \<open>fetchSFC\<close>: the SFC key in the \<open>w\<close> channel of the position texel of slot
  \<open>(i + N) % N\<close>.
\<close>

definition fetchSFC :: "nat \<Rightarrow> nat \<Rightarrow> vec4 tex \<Rightarrow> int \<Rightarrow> real" where
  "fetchSFC n_count data_w texPos i =
     (let ii = (i + int n_count) mod int n_count
      in snd (fetch_at texPos data_w ii))"

text \<open>
  The first loop of \<open>main\<close>: the keys of the chunk that starts at slot \<open>base\<close>, with
  the constant \<open>1.0e37\<close> for a slot outside \<open>[0, N)\<close>, and the local indices.
\<close>

definition chunk_keys :: "nat \<Rightarrow> nat \<Rightarrow> nat \<Rightarrow> vec4 tex \<Rightarrow> int \<Rightarrow> real list" where
  "chunk_keys chunk n_count data_w texPos base =
     map (\<lambda>i. let gIdx = base + int i in
               if gIdx \<ge> 0 \<and> gIdx < int n_count then fetchSFC n_count data_w texPos gIdx
               else 10 ^ 37)
         [0..<chunk]"

text \<open>
  The body of the innermost loop of the bitonic network: compare position \<open>i\<close> with its
  partner \<open>l = i ^ j\<close> and exchange keys and indices together.
\<close>

definition compare_exchange ::
  "nat \<Rightarrow> nat \<Rightarrow> nat \<Rightarrow> ('k::linorder) list \<times> nat list \<Rightarrow> 'k list \<times> nat list" where
  "compare_exchange k j i st =
     (case st of (keys, ids) \<Rightarrow>
        let l = i XOR j in
        if l > i then
          let dir = (i AND k = 0) in
          if (keys ! i > keys ! l) = dir
          then (keys[i := keys ! l, l := keys ! i], ids[i := ids ! l, l := ids ! i])
          else (keys, ids)
        else (keys, ids))"

text \<open>\<open>for (int i = 0; i < CHUNK; i++)\<close>\<close>

definition i_loop ::
  "nat \<Rightarrow> nat \<Rightarrow> nat \<Rightarrow> ('k::linorder) list \<times> nat list \<Rightarrow> 'k list \<times> nat list" where
  "i_loop chunk k j st = fold (compare_exchange k j) [0..<chunk] st"

text \<open>\<open>for (int j = k >> 1; j > 0; j >>= 1)\<close>, entered with the current \<open>j\<close>.\<close>

function j_loop ::
  "nat \<Rightarrow> nat \<Rightarrow> nat \<Rightarrow> ('k::linorder) list \<times> nat list \<Rightarrow> 'k list \<times> nat list" where
  "j_loop chunk k j st =
     (if j > 0 then j_loop chunk k (drop_bit 1 j) (i_loop chunk k j st) else st)"
  by pat_completeness auto
termination
  by (relation "measure (\<lambda>(chunk, k, j, st). j)") (auto simp: drop_bit_eq_div)

declare j_loop.simps [simp del]

text \<open>
  \<open>for (int k = 2; k <= CHUNK; k <<= 1)\<close>, entered with the current \<open>k\<close>. The loop
  starts at \<open>k = 2\<close>; for \<open>k = 0\<close>, which it never reaches, the model stops.
\<close>

function k_loop ::
  "nat \<Rightarrow> nat \<Rightarrow> ('k::linorder) list \<times> nat list \<Rightarrow> 'k list \<times> nat list" where
  "k_loop chunk k st =
     (if 0 < k \<and> k \<le> chunk
      then k_loop chunk (push_bit 1 k) (j_loop chunk k (drop_bit 1 k) st)
      else st)"
  by pat_completeness auto
termination
  by (relation "measure (\<lambda>(chunk, k, st). Suc chunk - k)") (auto simp: push_bit_eq_mult)

declare k_loop.simps [simp del]

text \<open>The network applied to the keys of a chunk, started on the identity indices.\<close>

definition bitonic_sort :: "nat \<Rightarrow> ('k::linorder) list \<Rightarrow> 'k list \<times> nat list" where
  "bitonic_sort chunk keys = k_loop chunk 2 (keys, [0..<chunk])"

text \<open>
  Packing: word \<open>i\<close> of the 32 holds the indices \<open>4i .. 4i+3\<close>, one byte each, lowest
  byte first.
\<close>

definition packed_word :: "nat list \<Rightarrow> nat \<Rightarrow> 32 word" where
  "packed_word ids i =
     (let a = of_nat (ids ! (i * 4 + 0)) AND 0xFF;
          b = of_nat (ids ! (i * 4 + 1)) AND 0xFF;
          c = of_nat (ids ! (i * 4 + 2)) AND 0xFF;
          d = of_nat (ids ! (i * 4 + 3)) AND 0xFF
      in a OR push_bit 8 b OR push_bit 16 c OR push_bit 24 d)"

text \<open>
  The eight \<open>uvec4\<close> outputs \<open>o0 .. o7\<close> of one fragment are kept as the list of their 32
  words: component \<open>c\<close> of output \<open>t\<close> is element \<open>4t + c\<close>. The sort atlas is the
  texture of these lists.
\<close>

type_synonym atlas = "32 word list tex"

text \<open>The fragment shader's \<open>main\<close> for the atlas texel \<open>(x, y)\<close>.\<close>

definition KSortEncoder_main ::
  "nat \<Rightarrow> nat \<Rightarrow> nat \<Rightarrow> nat \<Rightarrow> nat \<Rightarrow> vec4 tex \<Rightarrow> nat \<times> nat \<Rightarrow> 32 word list" where
  "KSortEncoder_main chunk data_w enc_w n_count u_sortOffset texPos pix =
     (case pix of (x, y) \<Rightarrow>
        let chunkIndex = y * enc_w + x;
            base = int (chunkIndex * chunk + u_sortOffset);
            keys = chunk_keys chunk n_count data_w texPos base;
            ids = snd (bitonic_sort chunk keys)
        in map (packed_word ids) [0..<32])"
lemma xor_less_pow2:
  fixes i j :: nat
  assumes "i < 2 ^ m" "j < 2 ^ m"
  shows "i XOR j < 2 ^ m"
proof -
  have "take_bit m (i XOR j) = take_bit m i XOR take_bit m j" by (rule take_bit_xor)
  also have "\<dots> = i XOR j" using assms by (simp add: take_bit_nat_eq_self)
  finally have "take_bit m (i XOR j) = i XOR j" .
  then show ?thesis by (rule iffD1 [OF take_bit_nat_eq_self_iff])
qed

lemma i_loop_invariant:
  assumes step: "\<And>i st. i < chunk \<Longrightarrow> P st \<Longrightarrow> P (compare_exchange k j i st)"
    and "P st"
  shows "P (i_loop chunk k j st)"
proof -
  have "\<forall>i \<in> set is. i < chunk \<Longrightarrow> P st \<Longrightarrow> P (fold (compare_exchange k j) is st)" for "is" st
    by (induction "is" arbitrary: st) (simp_all add: step)
  then show ?thesis using assms(2) by (simp add: i_loop_def)
qed

lemma j_loop_invariant:
  assumes "\<And>j i st. i < chunk \<Longrightarrow> 0 < j \<Longrightarrow> j < chunk \<Longrightarrow> P st
                  \<Longrightarrow> P (compare_exchange k j i st)"
    and "P st" "j < chunk"
  shows "P (j_loop chunk k j st)"
  using assms
proof (induction chunk k j st rule: j_loop.induct)
  case (1 chunk k j st)
  note step = "1.prems"(1)
  show ?case
  proof (cases "j > 0")
    case True
    have a: "P (i_loop chunk k j st)"
    proof (rule i_loop_invariant [where P = P])
      show "P st" by (rule "1.prems"(2))
    next
      fix i st' assume "i < chunk" "P st'"
      then show "P (compare_exchange k j i st')" using True "1.prems"(3) by (intro step)
    qed
    have b: "drop_bit 1 j < chunk" using "1.prems"(3) by (simp add: drop_bit_eq_div)
    from "1.IH" [OF True step a b] True show ?thesis by (subst j_loop.simps) simp
  next
    case False
    with "1.prems" show ?thesis by (subst j_loop.simps) simp
  qed
qed

lemma k_loop_invariant:
  assumes "\<And>k j i st. i < chunk \<Longrightarrow> 0 < j \<Longrightarrow> j < chunk \<Longrightarrow> P st
                  \<Longrightarrow> P (compare_exchange k j i st)"
    and "P st"
  shows "P (k_loop chunk k st)"
  using assms
proof (induction chunk k st rule: k_loop.induct)
  case (1 chunk k st)
  note step = "1.prems"(1)
  show ?case
  proof (cases "0 < k \<and> k \<le> chunk")
    case True
    then have "k div 2 < k" by simp
    with True have d: "drop_bit 1 k < chunk" by (simp add: drop_bit_eq_div)
    have a: "P (j_loop chunk k (drop_bit 1 k) st)"
      by (rule j_loop_invariant [where P = P, OF step "1.prems"(2) d])
    from "1.IH" [OF True step a] True show ?thesis by (subst k_loop.simps) simp
  next
    case False
    with "1.prems"(2) show ?thesis by (subst k_loop.simps) auto
  qed
qed

text \<open>
  What every exchange keeps: the lengths, the indices being a permutation of the local
  indices, and each key travelling with its index.
\<close>

definition sort_inv :: "nat \<Rightarrow> ('k::linorder) list \<Rightarrow> 'k list \<times> nat list \<Rightarrow> bool" where
  "sort_inv chunk keys0 st =
     (case st of (keys, ids) \<Rightarrow>
        length keys = chunk \<and> length ids = chunk \<and> mset ids = mset [0..<chunk]
        \<and> (\<forall>p<chunk. keys ! p = keys0 ! (ids ! p)))"

lemma swap_nth:
  assumes "i < length xs" "l < length xs" "p < length xs"
  shows "xs[i := xs ! l, l := xs ! i] ! p = xs ! (if p = l then i else if p = i then l else p)"
  using assms by (simp add: nth_list_update)

lemma compare_exchange_inv:
  assumes "chunk = 2 ^ m" "i < chunk" "j < chunk" "sort_inv chunk keys0 st"
  shows "sort_inv chunk keys0 (compare_exchange k j i st)"
proof -
  obtain keys ids where st: "st = (keys, ids)" by (cases st)
  define l where "l = i XOR j"
  have l: "l < chunk" using assms xor_less_pow2 by (simp add: l_def)
  from assms(4) have len: "length keys = chunk" "length ids = chunk"
    and ms: "mset ids = mset [0..<chunk]"
    and ky: "\<forall>p<chunk. keys ! p = keys0 ! (ids ! p)"
    by (simp_all add: sort_inv_def st)
  have sw: "mset (ids[i := ids ! l, l := ids ! i]) = mset ids"
    using mset_swap [of l ids i] l assms(2) len by simp
  have ks: "keys[i := keys ! l, l := keys ! i] ! p = keys0 ! (ids[i := ids ! l, l := ids ! i] ! p)"
    if "p < chunk" for p
    using that ky len l assms(2) by (simp only: swap_nth) simp
  have swapped: "sort_inv chunk keys0 (keys[i := keys ! l, l := keys ! i], ids[i := ids ! l, l := ids ! i])"
    using len ms sw ks by (simp add: sort_inv_def)
  have "compare_exchange k j i st = st
      \<or> compare_exchange k j i st = (keys[i := keys ! l, l := keys ! i], ids[i := ids ! l, l := ids ! i])"
    by (simp add: compare_exchange_def st Let_def l_def)
  then show ?thesis using swapped assms(4) by auto
qed

lemma bitonic_sort_inv:
  assumes "chunk = 2 ^ m" "length keys = chunk"
  shows "sort_inv chunk keys (bitonic_sort chunk keys)"
  unfolding bitonic_sort_def
proof (rule k_loop_invariant [where P = "sort_inv chunk keys"])
  show "sort_inv chunk keys (keys, [0..<chunk])"
    using assms(2) by (simp add: sort_inv_def)
next
  fix k j i and st :: "'a list \<times> nat list"
  assume a: "i < chunk" "0 < j" "j < chunk" "sort_inv chunk keys st"
  show "sort_inv chunk keys (compare_exchange k j i st)"
    by (rule compare_exchange_inv [OF assms(1) a(1) a(3) a(4)])
qed

lemma bitonic_sort_ids_perm:
  assumes "chunk = 2 ^ m" "length keys = chunk"
  shows "mset (snd (bitonic_sort chunk keys)) = mset [0..<chunk]"
    and "length (snd (bitonic_sort chunk keys)) = chunk"
  using bitonic_sort_inv [OF assms] by (auto simp: sort_inv_def split: prod.splits)
lemma byte0:
  fixes a b c d :: "32 word"
  shows "(a AND 0xFF OR push_bit 8 (b AND 0xFF) OR push_bit 16 (c AND 0xFF) OR push_bit 24 (d AND 0xFF)) AND 0xFF = a AND 0xFF"
proof -
  have m: "(0xFF :: 32 word) = mask 8" by (simp add: mask_eq_exp_minus_1)
  show ?thesis unfolding m
    by (rule bit_word_eqI) (auto simp: bit_simps)
qed

lemma byte1:
  fixes a b c d :: "32 word"
  shows "drop_bit 8 (a AND 0xFF OR push_bit 8 (b AND 0xFF) OR push_bit 16 (c AND 0xFF) OR push_bit 24 (d AND 0xFF)) AND 0xFF = b AND 0xFF"
proof -
  have m: "(0xFF :: 32 word) = mask 8" by (simp add: mask_eq_exp_minus_1)
  show ?thesis unfolding m
    by (rule bit_word_eqI) (auto simp: bit_simps)
qed

lemma byte2:
  fixes a b c d :: "32 word"
  shows "drop_bit 16 (a AND 0xFF OR push_bit 8 (b AND 0xFF) OR push_bit 16 (c AND 0xFF) OR push_bit 24 (d AND 0xFF)) AND 0xFF = c AND 0xFF"
proof -
  have m: "(0xFF :: 32 word) = mask 8" by (simp add: mask_eq_exp_minus_1)
  show ?thesis unfolding m
    by (rule bit_word_eqI) (auto simp: bit_simps)
qed

lemma byte3:
  fixes a b c d :: "32 word"
  shows "drop_bit 24 (a AND 0xFF OR push_bit 8 (b AND 0xFF) OR push_bit 16 (c AND 0xFF) OR push_bit 24 (d AND 0xFF)) AND 0xFF = d AND 0xFF"
proof -
  have m: "(0xFF :: 32 word) = mask 8" by (simp add: mask_eq_exp_minus_1)
  show ?thesis unfolding m
    by (rule bit_word_eqI) (auto simp: bit_simps)
qed

lemma unat_byte:
  assumes "x < 256"
  shows "unat ((of_nat x :: 32 word) AND 0xFF) = x"
proof -
  have m: "(0xFF :: 32 word) = mask 8" by (simp add: mask_eq_exp_minus_1)
  have "unat ((of_nat x :: 32 word) AND mask 8) = take_bit 8 (unat (of_nat x :: 32 word))"
    by (simp add: unsigned_take_bit_eq flip: take_bit_eq_mask)
  also have "unat (of_nat x :: 32 word) = x" using assms by (simp add: unsigned_of_nat take_bit_nat_eq_self)
  also have "take_bit 8 x = x" using assms by (simp add: take_bit_nat_eq_self)
  finally show ?thesis by (simp add: m)
qed
section \<open>Render passes\<close>

text \<open>
  A full-screen pass over a viewport of \<open>w \<times> h\<close> texels runs the fragment shader once
  for every texel of the viewport and stores its output there; a fragment that is
  discarded (\<open>None\<close>) leaves its texel as it was, and so does everything outside the
  viewport.
\<close>

definition render :: "nat \<Rightarrow> nat \<Rightarrow> (nat \<times> nat \<Rightarrow> 'a option) \<Rightarrow> 'a tex \<Rightarrow> 'a tex" where
  "render w h main target =
     (\<lambda>c. if fst c < w \<and> snd c < h
          then (case main c of Some v \<Rightarrow> v | None \<Rightarrow> target c)
          else target c)"

section \<open>Texture dimensions (layout.js, \<open>GraphLayout.constructor\<close>)\<close>

text \<open>
  \<open>Math.ceil(a / b)\<close> for natural numbers, and
  \<open>Math.pow(2, Math.ceil(Math.log2(Math.sqrt(x))))\<close>: the least power of two whose
  square is at least \<open>x\<close>, found by doubling; \<open>0\<close> for \<open>x = 0\<close>, where the logarithm
  is \<open>-Infinity\<close>. Both are computed exactly. A division by a width \<open>0\<close>, which
  JavaScript answers with \<open>NaN\<close> or \<open>Infinity\<close>, is \<open>0\<close> here.
\<close>

definition ceil_div :: "nat \<Rightarrow> nat \<Rightarrow> nat" where
  "ceil_div a b = (a + b - 1) div b"

fun pow2_search :: "nat \<Rightarrow> nat \<Rightarrow> nat \<Rightarrow> nat" where
  "pow2_search 0 x a = a"
| "pow2_search (Suc fuel) x a = (if x \<le> a * a then a else pow2_search fuel x (2 * a))"

definition pow2_ge_sqrt :: "nat \<Rightarrow> nat" where
  "pow2_ge_sqrt x = (if x = 0 then 0 else pow2_search x x 1)"

definition encodedSortOrderWidth :: "nat \<Rightarrow> nat" where
  "encodedSortOrderWidth n = pow2_ge_sqrt (ceil_div n 128)"

definition encodedSortOrderHeight :: "nat \<Rightarrow> nat" where
  "encodedSortOrderHeight n = ceil_div n (128 * encodedSortOrderWidth n)"

definition edgeStoreWidth :: "nat \<Rightarrow> nat" where
  "edgeStoreWidth e = pow2_ge_sqrt e"

definition edgeStoreHeight :: "nat \<Rightarrow> nat" where
  "edgeStoreHeight e = ceil_div e (edgeStoreWidth e)"

definition coarseWidth :: "nat \<Rightarrow> nat \<Rightarrow> nat" where
  "coarseWidth e stride = pow2_ge_sqrt (ceil_div e stride)"

definition coarseHeight :: "nat \<Rightarrow> nat \<Rightarrow> nat" where
  "coarseHeight e stride = ceil_div (ceil_div e stride) (coarseWidth e stride)"

definition particleDataWidth :: "nat \<Rightarrow> nat" where
  "particleDataWidth n = pow2_ge_sqrt (n + 1)"

definition particleDataHeight :: "nat \<Rightarrow> nat" where
  "particleDataHeight n = ceil_div (n + 1) (particleDataWidth n)"

section \<open>Particle reshuffle (k-particle-reshuffle.js, \<open>KParticleReshuffle\<close>)\<close>

text \<open>
  \<open>fetchPackedFromOrder\<close>: the chain of comparisons selects texture \<open>texIdx\<close>, the
  last one for any \<open>texIdx\<close> above 6, and component \<open>comp\<close>, the last one for any
  \<open>comp\<close> above 2.
\<close>

definition fetchPackedFromOrder :: "atlas \<Rightarrow> nat \<Rightarrow> nat \<times> nat \<Rightarrow> nat \<Rightarrow> 32 word" where
  "fetchPackedFromOrder order texIdx crd component =
     (let t = (if texIdx < 7 then texIdx else 7);
          c = (if component < 3 then component else 3)
      in order crd ! (t * 4 + c))"

text \<open>
  The fragment shader's \<open>main\<close> for the texel \<open>(fx, fy)\<close>. In the branch that decodes
  the atlas \<open>relIdx\<close> is not negative, so the chunk and local indices are naturals.
\<close>

definition KParticleReshuffle_main ::
  "nat \<Rightarrow> nat \<Rightarrow> nat \<Rightarrow> nat \<Rightarrow> nat \<Rightarrow> atlas \<Rightarrow> 'p tex \<Rightarrow> 'v tex \<Rightarrow> 'm tex \<Rightarrow> nat \<times> nat
   \<Rightarrow> ('p \<times> 'v \<times> 'm) option" where
  "KParticleReshuffle_main spanSize enc_w data_w n_count u_sortOffset order inPos inVel inIdMass frag =
     (case frag of (fx, fy) \<Rightarrow>
        let idx = int (fy * data_w + fx) in
        if idx \<ge> int n_count then None
        else
          let offset = int u_sortOffset;
              relIdx = idx - offset
          in
          if relIdx < 0 \<or> relIdx \<ge> ((int n_count - offset) sdiv int spanSize) * int spanSize
          then Some (fetch_at inPos data_w idx, fetch_at inVel data_w idx,
                     fetch_at inIdMass data_w idx)
          else
            let chunkIndex = nat (relIdx div int spanSize);
                localIdx = nat (relIdx mod int spanSize);
                crd = (chunkIndex mod enc_w, chunkIndex div enc_w);
                packedIndex = drop_bit 2 localIdx;
                texIdx = drop_bit 2 packedIndex;
                component = packedIndex AND 3;
                packedVal = fetchPackedFromOrder order texIdx crd component;
                byteShift = (localIdx AND 3) * 8;
                srcLocal = int (unat (drop_bit byteShift packedVal AND 0xFF));
                srcGlobal0 = (int chunkIndex * int spanSize + offset) + srcLocal;
                srcGlobal = (if srcGlobal0 < 0 \<or> srcGlobal0 \<ge> int n_count then idx
                             else srcGlobal0)
            in Some (fetch_at inPos data_w srcGlobal, fetch_at inVel data_w srcGlobal,
                     fetch_at inIdMass data_w srcGlobal))"

text \<open>
  \<open>KSortEncoder.run\<close> and \<open>KParticleReshuffle.run\<close> as the orchestrator issues them
  for \<open>n\<close> particles: the encoder fills the atlas from the scratch positions, the
  reshuffle gathers the three scratch textures through the atlas into the current ones.
\<close>

definition KSortEncoder_run :: "nat \<Rightarrow> nat \<Rightarrow> vec4 tex \<Rightarrow> atlas \<Rightarrow> atlas" where
  "KSortEncoder_run n u_sortOffset texPos outOrder =
     render (encodedSortOrderWidth n) (encodedSortOrderHeight n)
       (\<lambda>pix. Some (KSortEncoder_main 128 (particleDataWidth n) (encodedSortOrderWidth n) n
                       u_sortOffset texPos pix))
       outOrder"

definition KParticleReshuffle_run ::
  "nat \<Rightarrow> nat \<Rightarrow> atlas \<Rightarrow> 'p tex \<times> 'v tex \<times> 'm tex \<Rightarrow> 'p tex \<times> 'v tex \<times> 'm tex
   \<Rightarrow> 'p tex \<times> 'v tex \<times> 'm tex" where
  "KParticleReshuffle_run n u_sortOffset order ins outs =
     (case ins of (inPos, inVel, inIdMass) \<Rightarrow>
      case outs of (outPos, outVel, outIdMass) \<Rightarrow>
        let main = KParticleReshuffle_main 128 (encodedSortOrderWidth n) (particleDataWidth n) n
                     u_sortOffset order inPos inVel inIdMass;
            w = particleDataWidth n;
            h = particleDataHeight n
        in (render w h (\<lambda>c. map_option fst (main c)) outPos,
            render w h (\<lambda>c. map_option (\<lambda>r. fst (snd r)) (main c)) outVel,
            render w h (\<lambda>c. map_option (\<lambda>r. snd (snd r)) (main c)) outIdMass))"

text \<open>The rolling offset of the tick with pass counter \<open>pass\<close>.\<close>

definition sortOffset_of :: "nat \<Rightarrow> nat" where
  "sortOffset_of pass = (pass mod 2) * (128 div 2)"

lemma ceil_div_ge: "0 < b \<Longrightarrow> a \<le> b * ceil_div a b"
proof -
  assume b: "0 < b"
  have "a + b - 1 = (a + b - 1) div b * b + (a + b - 1) mod b" by simp
  moreover have "(a + b - 1) mod b < b" using b by simp
  ultimately have "a + b - 1 < (a + b - 1) div b * b + b" by linarith
  then show ?thesis using b by (simp add: ceil_div_def mult.commute)
qed

lemma pow2_search_pos: "0 < a \<Longrightarrow> 0 < pow2_search fuel x a"
  by (induction fuel arbitrary: a) simp_all

lemma pow2_ge_sqrt_pos: "0 < x \<Longrightarrow> 0 < pow2_ge_sqrt x"
  by (simp add: pow2_ge_sqrt_def pow2_search_pos)

lemma particleDataWidth_pos: "0 < particleDataWidth n"
  by (simp add: particleDataWidth_def pow2_ge_sqrt_pos)

lemma particleData_capacity: "n < particleDataWidth n * particleDataHeight n"
  using ceil_div_ge [OF particleDataWidth_pos, of "n + 1" n]
  by (simp add: particleDataHeight_def)

lemma encodedSortOrderWidth_pos: "0 < n \<Longrightarrow> 0 < encodedSortOrderWidth n"
proof -
  assume "0 < n"
  then have "0 < ceil_div n 128" using ceil_div_ge [of 128 n] by (cases "ceil_div n 128") auto
  then show ?thesis by (simp add: encodedSortOrderWidth_def pow2_ge_sqrt_pos)
qed

lemma encodedSortOrder_capacity:
  assumes "0 < n"
  shows "n \<le> 128 * (encodedSortOrderWidth n * encodedSortOrderHeight n)"
  using ceil_div_ge [of "128 * encodedSortOrderWidth n" n] encodedSortOrderWidth_pos [OF assms]
  by (simp add: encodedSortOrderHeight_def mult.assoc)

lemma coord_in_viewport:
  assumes "0 < w" "i < w * h"
  shows "fst (coord w i) < w \<and> snd (coord w i) < h"
  using assms by (simp add: coord_def less_mult_imp_div_less mult.commute)

lemma flat_coord: "snd (coord w i) * w + fst (coord w i) = i"
  by (simp add: coord_def)

lemma fetch_at_nat: "fetch_at t w (int i) = t (coord w i)"
  by (simp add: fetch_at_def coord_def flip: zmod_int zdiv_int)

subsection \<open>The gather map of a tick\<close>

text \<open>
  The permutation \<open>\<pi>\<^sub>k\<close> the encoder computes for chunk \<open>k\<close>, and the source slot the
  specification names for destination slot \<open>i\<close>: \<open>i\<close> itself outside the sorted
  region, \<open>k C + o + \<pi>\<^sub>k[L]\<close> inside it.
\<close>

definition sorted_ids :: "nat \<Rightarrow> nat \<Rightarrow> vec4 tex \<Rightarrow> nat \<Rightarrow> nat list" where
  "sorted_ids n u_sortOffset texPos k =
     snd (bitonic_sort 128
            (chunk_keys 128 n (particleDataWidth n) texPos (int (k * 128 + u_sortOffset))))"

definition reshuffle_src :: "nat \<Rightarrow> nat \<Rightarrow> vec4 tex \<Rightarrow> nat \<Rightarrow> nat" where
  "reshuffle_src n u_sortOffset texPos i =
     (if i < u_sortOffset \<or> (n - u_sortOffset) div 128 * 128 \<le> i - u_sortOffset then i
      else let rel = i - u_sortOffset; k = rel div 128; l = rel mod 128
           in k * 128 + u_sortOffset + sorted_ids n u_sortOffset texPos k ! l)"

lemma sorted_ids_perm:
  "mset (sorted_ids n offs texPos k) = mset [0..<128]"
  "length (sorted_ids n offs texPos k) = 128"
proof -
  have p: "(128::nat) = 2 ^ 7" by simp
  have l: "length (chunk_keys 128 n (particleDataWidth n) texPos (int (k * 128 + offs))) = 128"
    by (simp add: chunk_keys_def)
  show "mset (sorted_ids n offs texPos k) = mset [0..<128]"
    unfolding sorted_ids_def by (rule bitonic_sort_ids_perm(1) [OF p l])
  show "length (sorted_ids n offs texPos k) = 128"
    unfolding sorted_ids_def by (rule bitonic_sort_ids_perm(2) [OF p l])
qed

lemma sorted_ids_set: "set (sorted_ids n offs texPos k) = {0..<128}"
  using sorted_ids_perm(1) [of n offs texPos k] by (metis mset_eq_setD set_upt)

lemma sorted_ids_less: "l < 128 \<Longrightarrow> sorted_ids n offs texPos k ! l < 128"
  using sorted_ids_set [of n offs texPos k] sorted_ids_perm(2) [of n offs texPos k]
  by (metis atLeastLessThan_iff nth_mem)

lemma sorted_ids_distinct: "distinct (sorted_ids n offs texPos k)"
  using sorted_ids_perm(1) [of n offs texPos k] by (metis distinct_upt mset_eq_imp_distinct_iff)

lemma and_3_nat: "(x::nat) AND 3 = x mod 4"
proof -
  have m: "mask 2 = (3::nat)" by (simp add: mask_eq_exp_minus_1)
  have "x AND mask 2 = x mod 4" by (simp add: take_bit_eq_mod flip: take_bit_eq_mask)
  then show ?thesis unfolding m .
qed

lemma unpack_packed_word:
  assumes "r < 4"
  shows "drop_bit (r * 8) (packed_word ids q) AND 0xFF
       = (of_nat (ids ! (q * 4 + r)) :: 32 word) AND 0xFF"
proof -
  from assms have "r = 0 \<or> r = 1 \<or> r = 2 \<or> r = 3" by presburger
  then show ?thesis
  proof (elim disjE)
    assume r: "r = 0"
    have "drop_bit (0 * 8) (packed_word ids q) = packed_word ids q" by simp
    then show ?thesis unfolding r packed_word_def Let_def by (simp only: byte0)
  next
    assume r: "r = 1"
    have e: "(1::nat) * 8 = 8" by simp
    show ?thesis unfolding r e packed_word_def Let_def by (rule byte1)
  next
    assume r: "r = 2"
    have e: "(2::nat) * 8 = 16" by simp
    show ?thesis unfolding r e packed_word_def Let_def by (rule byte2)
  next
    assume r: "r = 3"
    have e: "(3::nat) * 8 = 24" by simp
    show ?thesis unfolding r e packed_word_def Let_def by (rule byte3)
  qed
qed

lemma decode_packed:
  assumes l: "l < 128" and len: "length ids = 128" and small: "\<forall>x \<in> set ids. x < 256"
    and ord: "order crd = map (packed_word ids) [0..<32]"
  shows "unat (drop_bit ((l AND 3) * 8)
                 (fetchPackedFromOrder order (drop_bit 2 (drop_bit 2 l)) crd (drop_bit 2 l AND 3))
               AND 0xFF) = ids ! l"
proof -
  define q where "q = l div 4"
  define r where "r = l mod 4"
  have q: "q < 32" using l by (simp add: q_def)
  have r: "r < 4" by (simp add: r_def)
  have lqr: "q * 4 + r = l" by (simp add: q_def r_def)
  have sel: "(if q div 4 < 7 then q div 4 else 7) * 4 + (if q mod 4 < 3 then q mod 4 else 3) = q"
    using q by (auto simp: not_less) presburger+
  have f: "fetchPackedFromOrder order (drop_bit 2 (drop_bit 2 l)) crd (drop_bit 2 l AND 3)
         = packed_word ids q"
    using q sel by (simp add: fetchPackedFromOrder_def Let_def drop_bit_eq_div and_3_nat ord
        flip: q_def)
  have "ids ! l \<in> set ids" using l len by simp
  then have b: "unat ((of_nat (ids ! l) :: 32 word) AND 0xFF) = ids ! l"
    using small by (intro unat_byte) blast
  have "drop_bit ((l AND 3) * 8)
          (fetchPackedFromOrder order (drop_bit 2 (drop_bit 2 l)) crd (drop_bit 2 l AND 3)) AND 0xFF
      = (of_nat (ids ! l) :: 32 word) AND 0xFF"
    using unpack_packed_word [OF r, of ids q] f by (simp only: and_3_nat lqr flip: r_def)
  then show ?thesis using b by (simp only:)
qed
lemma sdiv_nonneg:
  fixes a b :: int
  assumes "0 \<le> a" "0 < b"
  shows "a sdiv b = a div b"
  using assms by (simp add: signed_divide_int_def sgn_if)

lemma encoder_texel:
  assumes "k < (n - offs) div 128"
  shows "KSortEncoder_run n offs texPos oldOrder (coord (encodedSortOrderWidth n) k)
       = map (packed_word (sorted_ids n offs texPos k)) [0..<32]"
proof -
  let ?ew = "encodedSortOrderWidth n"
  let ?eh = "encodedSortOrderHeight n"
  have n: "0 < n" using assms by (cases n) auto
  have ew: "0 < ?ew" by (rule encodedSortOrderWidth_pos [OF n])
  have "k < n div 128" using assms by (meson diff_le_self div_le_mono less_le_trans)
  moreover have "n div 128 \<le> (128 * (?ew * ?eh)) div 128"
    by (rule div_le_mono [OF encodedSortOrder_capacity [OF n]])
  ultimately have "k < ?ew * ?eh" by simp
  then have v: "fst (coord ?ew k) < ?ew \<and> snd (coord ?ew k) < ?eh"
    by (rule coord_in_viewport [OF ew])
  have fl: "snd (coord ?ew k) * ?ew + fst (coord ?ew k) = k" by (rule flat_coord)
  show ?thesis
    unfolding KSortEncoder_run_def render_def KSortEncoder_main_def split_beta Let_def fl
      sorted_ids_def
    using v by simp
qed

lemma reshuffle_src_less:
  assumes "i < n"
  shows "reshuffle_src n offs texPos i < n"
proof (cases "i < offs \<or> (n - offs) div 128 * 128 \<le> i - offs")
  case True
  then show ?thesis using assms by (simp add: reshuffle_src_def)
next
  case False
  define r where "r = i - offs"
  define k where "k = r div 128"
  have r: "r < (n - offs) div 128 * 128" using False by (simp add: r_def)
  then have k: "k < (n - offs) div 128" by (simp add: k_def less_mult_imp_div_less)
  have "sorted_ids n offs texPos k ! (r mod 128) < 128" by (rule sorted_ids_less) simp
  then have "k * 128 + sorted_ids n offs texPos k ! (r mod 128) < (k + 1) * 128" by simp
  also have "\<dots> \<le> (n - offs) div 128 * 128" using k by (simp add: Suc_leI)
  also have "\<dots> \<le> n - offs" by simp
  finally have "k * 128 + offs + sorted_ids n offs texPos k ! (r mod 128) < n"
    using False assms by linarith
  then show ?thesis using False by (simp add: reshuffle_src_def Let_def r_def k_def)
qed

lemma reshuffle_main_gathers:
  assumes i: "i < n"
  shows "KParticleReshuffle_main 128 (encodedSortOrderWidth n) (particleDataWidth n) n offs
           (KSortEncoder_run n offs texPos oldOrder) inPos inVel inIdMass
           (coord (particleDataWidth n) i)
       = Some (inPos (coord (particleDataWidth n) (reshuffle_src n offs texPos i)),
               inVel (coord (particleDataWidth n) (reshuffle_src n offs texPos i)),
               inIdMass (coord (particleDataWidth n) (reshuffle_src n offs texPos i)))"
proof -
  let ?w = "particleDataWidth n"
  let ?ord = "KSortEncoder_run n offs texPos oldOrder"
  have idx: "int (snd (coord ?w i) * ?w + fst (coord ?w i)) = int i" by (simp add: flat_coord)
  show ?thesis
  proof (cases "i < offs \<or> (n - offs) div 128 * 128 \<le> i - offs")
    case True
    have c: "int i - int offs < 0
           \<or> ((int n - int offs) sdiv 128) * 128 \<le> int i - int offs"
    proof (cases "i < offs")
      case True
      then show ?thesis by simp
    next
      case ge: False
      then have "offs \<le> n" using i by simp
      then have "(int n - int offs) sdiv 128 = int ((n - offs) div 128)"
        by (simp add: sdiv_nonneg of_nat_diff zdiv_int)
      moreover have "int ((n - offs) div 128 * 128) \<le> int (i - offs)"
        using True ge by (simp only: of_nat_le_iff) simp
      ultimately show ?thesis using ge by (simp add: of_nat_diff)
    qed
    have "reshuffle_src n offs texPos i = i" using True by (simp add: reshuffle_src_def)
    then show ?thesis
      using i c idx
      by (simp add: KParticleReshuffle_main_def split_beta Let_def fetch_at_nat)
  next
    case False
    define r where "r = i - offs"
    define k where "k = r div 128"
    define l where "l = r mod 128"
    define ids where "ids = sorted_ids n offs texPos k"
    have io: "offs \<le> i" and on: "offs \<le> n" using False i by simp_all
    have r: "r < (n - offs) div 128 * 128" using False by (simp add: r_def)
    then have k: "k < (n - offs) div 128" by (simp add: k_def less_mult_imp_div_less)
    have l: "l < 128" by (simp add: l_def)
    have rel: "int i - int offs = int r" using io by (simp add: r_def of_nat_diff)
    have bound: "(int n - int offs) sdiv 128 * 128 = int ((n - offs) div 128 * 128)"
      using on by (simp add: sdiv_nonneg of_nat_diff zdiv_int)
    have c: "\<not> (int r < 0 \<or> int ((n - offs) div 128 * 128) \<le> int r)"
      using r by (simp only: of_nat_le_iff) simp
    have ck: "nat (int r div 128) = k" by (simp add: k_def nat_div_distrib)
    have cl: "nat (int r mod 128) = l" by (simp add: l_def nat_mod_distrib)
    have ord: "?ord (k mod encodedSortOrderWidth n, k div encodedSortOrderWidth n)
             = map (packed_word ids) [0..<32]"
      using encoder_texel [OF k, of texPos oldOrder] by (simp add: coord_def ids_def)
    have small: "\<forall>x \<in> set ids. x < 256"
      using sorted_ids_set [of n offs texPos k] by (auto simp: ids_def)
    have dec: "unat (drop_bit ((l AND 3) * 8)
                 (fetchPackedFromOrder ?ord (drop_bit 2 (drop_bit 2 l))
                    (k mod encodedSortOrderWidth n, k div encodedSortOrderWidth n)
                    (drop_bit 2 l AND 3))
               AND 0xFF) = ids ! l"
      by (rule decode_packed [where ids = ids and order = ?ord
            and crd = "(k mod encodedSortOrderWidth n, k div encodedSortOrderWidth n)",
            OF l _ small ord])
        (simp add: ids_def sorted_ids_perm)
    have src: "reshuffle_src n offs texPos i = k * 128 + offs + ids ! l"
      using False by (simp add: reshuffle_src_def Let_def r_def k_def l_def ids_def)
    have sl: "k * 128 + offs + ids ! l < n"
      using reshuffle_src_less [OF i, of offs texPos] by (simp add: src)
    have sg: "int k * 128 + int offs + int (ids ! l) = int (k * 128 + offs + ids ! l)" by simp
    have c2: "\<not> (int (k * 128 + offs + ids ! l) < 0 \<or> int n \<le> int (k * 128 + offs + ids ! l))"
      using sl by simp
    show ?thesis
      using i
      unfolding KParticleReshuffle_main_def split_beta Let_def idx rel of_nat_numeral bound
      by (simp only: c ck cl dec sg c2 src if_False fetch_at_nat) simp
  qed
qed
text \<open>The tuple of texels that the three particle textures hold for slot \<open>i\<close>.\<close>

definition slot_tuple :: "nat \<Rightarrow> 'p tex \<times> 'v tex \<times> 'm tex \<Rightarrow> nat \<Rightarrow> 'p \<times> 'v \<times> 'm" where
  "slot_tuple n texs i =
     (case texs of (texPos, texVel, texIdMass) \<Rightarrow>
        (texPos (coord (particleDataWidth n) i), texVel (coord (particleDataWidth n) i),
         texIdMass (coord (particleDataWidth n) i)))"

text \<open>An example: 130 particles whose SFC keys are all equal; particle \<open>i\<close> has PID \<open>i\<close>.\<close>

definition flat_pos :: "vec4 tex" where
  "flat_pos c = (Vec3 0 0 0, 0)"

definition rest_vel :: "vec4 tex" where
  "rest_vel c = (Vec3 0 0 0, 0)"

definition idmass_130 :: "idmass tex" where
  "idmass_130 c = \<lparr> pid = int (snd c * particleDataWidth 130 + fst c), mass = 1, tint = 0,
                    edgePtrStart = 0 \<rparr>"

definition empty_atlas :: atlas where
  "empty_atlas c = []"

lemma reshuffle_src_sorted:
  assumes "\<not> (i < offs \<or> (n - offs) div 128 * 128 \<le> i - offs)"
  shows "reshuffle_src n offs texPos i
           = (i - offs) div 128 * 128 + offs
             + sorted_ids n offs texPos ((i - offs) div 128) ! ((i - offs) mod 128)"
    and "(reshuffle_src n offs texPos i - offs) div 128 = (i - offs) div 128"
    and "(reshuffle_src n offs texPos i - offs) mod 128
           = sorted_ids n offs texPos ((i - offs) div 128) ! ((i - offs) mod 128)"
    and "\<not> (reshuffle_src n offs texPos i < offs
            \<or> (n - offs) div 128 * 128 \<le> reshuffle_src n offs texPos i - offs)"
proof -
  define k where "k = (i - offs) div 128"
  define v where "v = sorted_ids n offs texPos k ! ((i - offs) mod 128)"
  have v: "v < 128" unfolding v_def by (rule sorted_ids_less) simp
  have k: "k < (n - offs) div 128" using assms by (simp add: k_def less_mult_imp_div_less)
  show s: "reshuffle_src n offs texPos i
           = (i - offs) div 128 * 128 + offs
             + sorted_ids n offs texPos ((i - offs) div 128) ! ((i - offs) mod 128)"
    using assms by (simp add: reshuffle_src_def Let_def)
  then have s': "reshuffle_src n offs texPos i - offs = k * 128 + v"
    by (simp add: k_def v_def)
  show "(reshuffle_src n offs texPos i - offs) div 128 = (i - offs) div 128"
    using v by (simp add: s' k_def [symmetric])
  show "(reshuffle_src n offs texPos i - offs) mod 128
           = sorted_ids n offs texPos ((i - offs) div 128) ! ((i - offs) mod 128)"
    using v by (simp add: s' v_def [symmetric] k_def [symmetric])
  have "k * 128 + v < (k + 1) * 128" using v by simp
  also have "\<dots> \<le> (n - offs) div 128 * 128" using k by (simp add: Suc_leI)
  finally show "\<not> (reshuffle_src n offs texPos i < offs
            \<or> (n - offs) div 128 * 128 \<le> reshuffle_src n offs texPos i - offs)"
    using s by (simp add: s' k_def [symmetric] v_def [symmetric])
qed

lemma reshuffle_src_inj: "inj_on (reshuffle_src n offs texPos) {0..<n}"
proof (rule inj_onI)
  fix i j
  assume "i \<in> {0..<n}" "j \<in> {0..<n}"
    and eq: "reshuffle_src n offs texPos i = reshuffle_src n offs texPos j"
  let ?out = "\<lambda>i. i < offs \<or> (n - offs) div 128 * 128 \<le> i - offs"
  have id: "\<And>i. ?out i \<Longrightarrow> reshuffle_src n offs texPos i = i"
    by (simp add: reshuffle_src_def)
  show "i = j"
  proof (cases "?out i")
    case True
    then have "?out (reshuffle_src n offs texPos j)" using id eq by simp
    then have "?out j" using reshuffle_src_sorted(4) [of j offs n texPos] by blast
    then show ?thesis using id True eq by simp
  next
    case False
    then have "\<not> ?out (reshuffle_src n offs texPos j)"
      using reshuffle_src_sorted(4) [OF False, of texPos] eq by simp
    then have oj: "\<not> ?out j" using id by auto
    have k: "(i - offs) div 128 = (j - offs) div 128"
      using reshuffle_src_sorted(2) [OF False, of texPos] reshuffle_src_sorted(2) [OF oj, of texPos] eq
      by simp
    have "sorted_ids n offs texPos ((i - offs) div 128) ! ((i - offs) mod 128)
        = sorted_ids n offs texPos ((i - offs) div 128) ! ((j - offs) mod 128)"
      using reshuffle_src_sorted(3) [OF False, of texPos] reshuffle_src_sorted(3) [OF oj, of texPos] eq k
      by simp
    then have "(i - offs) mod 128 = (j - offs) mod 128"
      using sorted_ids_distinct [of n offs texPos "(i - offs) div 128"]
        sorted_ids_perm(2) [of n offs texPos "(i - offs) div 128"]
      by (simp add: nth_eq_iff_index_eq)
    with k have "i - offs = j - offs" by (metis div_mult_mod_eq)
    then show ?thesis using False oj by linarith
  qed
qed

lemma reshuffle_src_image: "reshuffle_src n offs texPos ` {0..<n} = {0..<n}"
proof (rule endo_inj_surj)
  show "finite {0..<n}" by simp
  show "reshuffle_src n offs texPos ` {0..<n} \<subseteq> {0..<n}"
    using reshuffle_src_less by auto
  show "inj_on (reshuffle_src n offs texPos) {0..<n}" by (rule reshuffle_src_inj)
qed

lemma reshuffle_run_slot:
  assumes "i < n"
  shows "slot_tuple n (KParticleReshuffle_run n offs (KSortEncoder_run n offs (fst ins) oldOrder)
                         ins outs) i
       = slot_tuple n ins (reshuffle_src n offs (fst ins) i)"
proof -
  obtain inPos inVel inIdMass where ins: "ins = (inPos, inVel, inIdMass)" by (cases ins)
  obtain outPos outVel outIdMass where outs: "outs = (outPos, outVel, outIdMass)" by (cases outs)
  have v: "fst (coord (particleDataWidth n) i) < particleDataWidth n
         \<and> snd (coord (particleDataWidth n) i) < particleDataHeight n"
    using assms particleData_capacity [of n]
    by (intro coord_in_viewport particleDataWidth_pos) simp
  show ?thesis
    using v reshuffle_main_gathers [OF assms, of offs inPos oldOrder inPos inVel inIdMass]
    by (simp add: slot_tuple_def KParticleReshuffle_run_def ins outs render_def Let_def)
qed

text \<open>
  C4. In every tick the sort encoder fills the atlas from the scratch positions and the
  reshuffle gathers through it. The output particle arrays over the slots \<open>[0, n)\<close>
  are a permutation of the input arrays as whole tuples: the multiset of tuples is
  unchanged, and for each destination slot all three textures are gathered from one
  common source slot, which lies in \<open>[0, n)\<close>.
\<close>

theorem reshuffle_permutation:
  fixes ins :: "vec4 tex \<times> 'v tex \<times> 'm tex"
  defines "res \<equiv> \<lambda>n pass oldOrder outs.
     KParticleReshuffle_run n (sortOffset_of pass)
       (KSortEncoder_run n (sortOffset_of pass) (fst ins) oldOrder) ins outs"
  shows "image_mset (slot_tuple n (res n pass oldOrder outs)) (mset_set {0..<n})
           = image_mset (slot_tuple n ins) (mset_set {0..<n})
       \<and> (\<forall>i<n. reshuffle_src n (sortOffset_of pass) (fst ins) i < n
                 \<and> slot_tuple n (res n pass oldOrder outs) i
                     = slot_tuple n ins (reshuffle_src n (sortOffset_of pass) (fst ins) i))"
proof -
  let ?src = "reshuffle_src n (sortOffset_of pass) (fst ins)"
  have slot: "\<forall>i<n. slot_tuple n (res n pass oldOrder outs) i = slot_tuple n ins (?src i)"
    unfolding res_def using reshuffle_run_slot by blast
  have "image_mset (slot_tuple n (res n pass oldOrder outs)) (mset_set {0..<n})
      = image_mset (\<lambda>i. slot_tuple n ins (?src i)) (mset_set {0..<n})"
    using slot by (intro image_mset_cong) simp
  also have "\<dots> = image_mset (slot_tuple n ins) (image_mset ?src (mset_set {0..<n}))"
    by (simp add: multiset.map_comp comp_def)
  also have "image_mset ?src (mset_set {0..<n}) = mset_set (?src ` {0..<n})"
    by (rule image_mset_mset_set [OF reshuffle_src_inj])
  also have "?src ` {0..<n} = {0..<n}" by (rule reshuffle_src_image)
  finally show ?thesis using slot reshuffle_src_less by blast
qed

theorem reshuffle_permutation_witness:
  "image_mset (slot_tuple 130
       (KParticleReshuffle_run 130 (sortOffset_of 0)
          (KSortEncoder_run 130 (sortOffset_of 0) (fst (flat_pos, rest_vel, idmass_130)) empty_atlas)
          (flat_pos, rest_vel, idmass_130) (flat_pos, rest_vel, idmass_130)))
     (mset_set {0..<130})
   = image_mset (slot_tuple 130 (flat_pos, rest_vel, idmass_130)) (mset_set {0..<130})
   \<and> reshuffle_src 130 (sortOffset_of 0) (fst (flat_pos, rest_vel, idmass_130)) 2 < 130
   \<and> slot_tuple 130
       (KParticleReshuffle_run 130 (sortOffset_of 0)
          (KSortEncoder_run 130 (sortOffset_of 0) (fst (flat_pos, rest_vel, idmass_130)) empty_atlas)
          (flat_pos, rest_vel, idmass_130) (flat_pos, rest_vel, idmass_130)) 2
     = slot_tuple 130 (flat_pos, rest_vel, idmass_130)
         (reshuffle_src 130 (sortOffset_of 0) (fst (flat_pos, rest_vel, idmass_130)) 2)"
  using reshuffle_permutation [where n = 130 and ins = "(flat_pos, rest_vel, idmass_130)"
      and pass = 0 and oldOrder = empty_atlas and outs = "(flat_pos, rest_vel, idmass_130)"]
  by simp

section \<open>CSR prefix sum (\<open>KEdgePrefixSum\<close>)\<close>

text \<open>
  \<open>getOldID\<close>, the atlas lookup shared by the prefix-sum and the relocation shaders:
  the old physical slot of the particle that the reshuffle put into slot \<open>pNew\<close>.
\<close>

definition getOldID :: "nat \<Rightarrow> nat \<Rightarrow> nat \<Rightarrow> atlas \<Rightarrow> nat \<Rightarrow> nat" where
  "getOldID enc_w n_count u_sortOffset order pNew =
     (let idx = int pNew;
          offset = int u_sortOffset;
          relIdx = idx - offset
      in
      if relIdx < 0 \<or> relIdx \<ge> ((int n_count - offset) sdiv 128) * 128 then nat idx
      else
        let chunkIdx = nat (relIdx div 128);
            sub = nat (relIdx mod 128);
            texIdx = sub div 16;
            rem = sub mod 16;
            component = rem div 4;
            byteIdx = rem mod 4;
            crd = (chunkIdx mod enc_w, chunkIdx div enc_w);
            val = fetchPackedFromOrder order texIdx crd component;
            rel = drop_bit (byteIdx * 8) val AND 0xFF
        in (chunkIdx * 128 + u_sortOffset) + unat rel)"

text \<open>\<open>progInit\<close>: the edge count of the particle now in slot \<open>flatIdx\<close>, read off the old offsets.\<close>

definition progInit_main ::
  "nat \<Rightarrow> nat \<Rightarrow> nat \<Rightarrow> nat \<Rightarrow> atlas \<Rightarrow> int tex \<Rightarrow> nat \<times> nat \<Rightarrow> int" where
  "progInit_main enc_w n_count dims_x u_sortOffset order u_texEdgePtrOld c =
     (let flatIdx = snd c * dims_x + fst c in
      if flatIdx \<ge> n_count then 0
      else
        let pOld = getOldID enc_w n_count u_sortOffset order flatIdx;
            coordOld = (pOld mod dims_x, pOld div dims_x);
            startCurrent = u_texEdgePtrOld coordOld;
            pNextIdx = pOld + 1;
            coordNext = (pNextIdx mod dims_x, pNextIdx div dims_x);
            startNext = u_texEdgePtrOld coordNext
        in startNext - startCurrent)"

text \<open>\<open>progScan\<close>: one Hillis-Steele step with the given offset.\<close>

definition progScan_main :: "nat \<Rightarrow> nat \<Rightarrow> int tex \<Rightarrow> nat \<times> nat \<Rightarrow> int" where
  "progScan_main dims_x u_offset u_texSum c =
     (let flatIdx = snd c * dims_x + fst c;
          self = u_texSum c
      in
      if flatIdx \<ge> u_offset
      then let neighborIdx = flatIdx - u_offset;
               neighborCoord = (neighborIdx mod dims_x, neighborIdx div dims_x);
               other = u_texSum neighborCoord
           in self + other
      else self)"

text \<open>\<open>progFinal\<close>: the exclusive start, the inclusive sum minus the recomputed count.\<close>

definition progFinal_main ::
  "nat \<Rightarrow> nat \<Rightarrow> nat \<Rightarrow> nat \<Rightarrow> atlas \<Rightarrow> int tex \<Rightarrow> int tex \<Rightarrow> nat \<times> nat \<Rightarrow> int" where
  "progFinal_main enc_w n_count dims_x u_sortOffset order u_texEdgePtrOld u_texSum c =
     (let flatIdx = snd c * dims_x + fst c;
          inclusiveSum = u_texSum c;
          count =
            (if flatIdx < n_count
             then let pOld = getOldID enc_w n_count u_sortOffset order flatIdx;
                      coordOld = (pOld mod dims_x, pOld div dims_x);
                      startCurrent = u_texEdgePtrOld coordOld;
                      pNextIdx = pOld + 1;
                      coordNext = (pNextIdx mod dims_x, pNextIdx div dims_x);
                      startNext = u_texEdgePtrOld coordNext
                  in startNext - startCurrent
             else 0);
          start = inclusiveSum - count
      in start)"

text \<open>\<open>Math.ceil(Math.log2(n))\<close> for \<open>n \<ge> 1\<close>: the least \<open>s\<close> with \<open>n \<le> 2\<^sup>s\<close>, found by counting up.\<close>

fun ceil_log2_search :: "nat \<Rightarrow> nat \<Rightarrow> nat \<Rightarrow> nat" where
  "ceil_log2_search 0 n s = s"
| "ceil_log2_search (Suc fuel) n s = (if n \<le> 2 ^ s then s else ceil_log2_search fuel n (Suc s))"

definition ceil_log2 :: "nat \<Rightarrow> nat" where
  "ceil_log2 n = ceil_log2_search n n 0"

text \<open>
  The scan loop of \<open>run\<close>: in step \<open>i\<close> the buffer \<open>texSum[readIdx]\<close> is scanned with
  offset \<open>1 << i\<close> into \<open>texSum[writeIdx]\<close>, then the two swap roles. The state is the
  pair (read buffer, write buffer).
\<close>

definition scan_step :: "nat \<Rightarrow> nat \<Rightarrow> nat \<Rightarrow> int tex \<times> int tex \<Rightarrow> int tex \<times> int tex" where
  "scan_step w h i bufs =
     (case bufs of (rd, wr) \<Rightarrow>
        (render w h (\<lambda>c. Some (progScan_main w (push_bit i 1) rd c)) wr, rd))"

text \<open>
  \<open>run\<close>, for a \<open>w \<times> h\<close> particle texture: init into \<open>texSum[0]\<close>, the scan loop, and
  the final pass into \<open>texOutput\<close>.
\<close>

definition KEdgePrefixSum_run ::
  "nat \<Rightarrow> nat \<Rightarrow> nat \<Rightarrow> nat \<Rightarrow> nat \<Rightarrow> atlas \<Rightarrow> int tex \<Rightarrow> int tex \<times> int tex \<Rightarrow> int tex
   \<Rightarrow> int tex" where
  "KEdgePrefixSum_run w h enc_w n_count u_sortOffset order texEdgePtrOld texSum texOutput =
     (let sum0 = render w h (\<lambda>c. Some (progInit_main enc_w n_count w u_sortOffset order
                                         texEdgePtrOld c)) (fst texSum);
          steps = ceil_log2 (w * h);
          scanned = fold (scan_step w h) [0..<steps] (sum0, snd texSum)
      in render w h (\<lambda>c. Some (progFinal_main enc_w n_count w u_sortOffset order texEdgePtrOld
                                  (fst scanned) c)) texOutput)"

lemma ceil_log2_search_ge: "n \<le> 2 ^ (s + fuel) \<Longrightarrow> n \<le> 2 ^ ceil_log2_search fuel n s"
  by (induction fuel arbitrary: s) simp_all

lemma ceil_log2_ge: "n \<le> 2 ^ ceil_log2 n"
  unfolding ceil_log2_def by (rule ceil_log2_search_ge) (simp add: less_imp_le)

text \<open>The edge count that \<open>progInit\<close> and \<open>progFinal\<close> derive for slot \<open>i\<close>.\<close>

definition edge_count :: "nat \<Rightarrow> nat \<Rightarrow> nat \<Rightarrow> nat \<Rightarrow> atlas \<Rightarrow> int tex \<Rightarrow> nat \<Rightarrow> int" where
  "edge_count enc_w n w offs order ptrOld i =
     (if i < n
      then ptrOld (coord w (getOldID enc_w n offs order i + 1))
           - ptrOld (coord w (getOldID enc_w n offs order i))
      else 0)"

lemma viewport_flat:
  assumes "0 < w" "i < w * h"
  shows "fst (coord w i) < w" "snd (coord w i) < h" "snd (coord w i) * w + fst (coord w i) = i"
  using coord_in_viewport [OF assms] flat_coord [of w i] by simp_all

lemma render_at:
  assumes "0 < w" "i < w * h"
  shows "render w h main target (coord w i)
       = (case main (coord w i) of Some v \<Rightarrow> v | None \<Rightarrow> target (coord w i))"
  using viewport_flat [OF assms] by (simp add: render_def)

lemma progInit_at:
  "progInit_main enc_w n w offs order ptrOld (coord w i) = edge_count enc_w n w offs order ptrOld i"
  by (simp add: progInit_main_def edge_count_def flat_coord Let_def coord_def)

text \<open>After \<open>s\<close> scan steps texel \<open>i\<close> holds the sum of the last \<open>2\<^sup>s\<close> counts up to \<open>i\<close>.\<close>

lemma scan_steps:
  assumes w: "0 < w"
    and init: "\<forall>i < w * h. sum0 (coord w i) = cnt i"
  shows "\<forall>i < w * h. fst (fold (scan_step w h) [0..<s] (sum0, buf)) (coord w i)
           = (\<Sum>j = Suc i - 2 ^ s..<Suc i. cnt j)"
proof (induction s)
  case 0
  show ?case using init by simp
next
  case (Suc s)
  obtain rd wr where st: "fold (scan_step w h) [0..<s] (sum0, buf) = (rd, wr)"
    by (cases "fold (scan_step w h) [0..<s] (sum0, buf)")
  have rd: "\<forall>i < w * h. rd (coord w i) = (\<Sum>j = Suc i - 2 ^ s..<Suc i. cnt j)"
    using Suc st by simp
  show ?case
  proof (intro allI impI)
    fix i assume i: "i < w * h"
    have new: "fst (fold (scan_step w h) [0..<Suc s] (sum0, buf)) (coord w i)
             = progScan_main w (2 ^ s) rd (coord w i)"
      by (simp add: st scan_step_def push_bit_eq_mult render_at [OF w i])
    show "fst (fold (scan_step w h) [0..<Suc s] (sum0, buf)) (coord w i)
            = (\<Sum>j = Suc i - 2 ^ Suc s..<Suc i. cnt j)"
    proof (cases "i \<ge> 2 ^ s")
      case True
      have lt: "i - 2 ^ s < w * h" using i by simp
      have "progScan_main w (2 ^ s) rd (coord w i)
          = rd (coord w i) + rd (coord w (i - 2 ^ s))"
        using True by (simp add: progScan_main_def flat_coord Let_def) (simp add: coord_def)
      also have "\<dots> = (\<Sum>j = Suc i - 2 ^ s..<Suc i. cnt j)
                     + (\<Sum>j = Suc (i - 2 ^ s) - 2 ^ s..<Suc (i - 2 ^ s). cnt j)"
        using rd i lt by simp
      also have "Suc (i - 2 ^ s) = Suc i - 2 ^ s" using True by simp
      also have "Suc i - 2 ^ s - 2 ^ s = Suc i - 2 ^ Suc s" by simp
      also have "(\<Sum>j = Suc i - 2 ^ s..<Suc i. cnt j)
                     + (\<Sum>j = Suc i - 2 ^ Suc s..<Suc i - 2 ^ s. cnt j)
               = (\<Sum>j = Suc i - 2 ^ Suc s..<Suc i. cnt j)"
        by (subst add.commute, rule sum.atLeastLessThan_concat) simp_all
      finally show ?thesis using new by simp
    next
      case False
      then have a: "Suc i - 2 ^ s = 0" "Suc i - 2 ^ Suc s = 0" by simp_all
      have "progScan_main w (2 ^ s) rd (coord w i) = rd (coord w i)"
        using False by (simp add: progScan_main_def flat_coord Let_def)
      then show ?thesis using new rd i a by simp
    qed
  qed
qed

lemma prefix_sum_exclusive:
  assumes w: "0 < w" and i: "i < w * h"
  shows "KEdgePrefixSum_run w h enc_w n offs order ptrOld texSum texOutput (coord w i)
       = (\<Sum>j<i. edge_count enc_w n w offs order ptrOld j)"
proof -
  let ?cnt = "edge_count enc_w n w offs order ptrOld"
  let ?sum0 = "render w h (\<lambda>c. Some (progInit_main enc_w n w offs order ptrOld c)) (fst texSum)"
  let ?steps = "ceil_log2 (w * h)"
  have init: "\<forall>i < w * h. ?sum0 (coord w i) = ?cnt i"
  proof (intro allI impI)
    fix k assume "k < w * h"
    then show "?sum0 (coord w k) = ?cnt k" by (simp add: render_at [OF w] progInit_at)
  qed
  have "Suc i \<le> 2 ^ ?steps" using i ceil_log2_ge [of "w * h"] by simp
  then have z: "Suc i - 2 ^ ?steps = 0" by simp
  have incl: "fst (fold (scan_step w h) [0..<?steps] (?sum0, snd texSum)) (coord w i)
            = (\<Sum>j<Suc i. ?cnt j)"
    using scan_steps [OF w init, of ?steps "snd texSum"] i z by (simp add: lessThan_atLeast0)
  have fin: "progFinal_main enc_w n w offs order ptrOld t (coord w i) = t (coord w i) - ?cnt i" for t
    by (simp add: progFinal_main_def edge_count_def flat_coord Let_def coord_def)
  show ?thesis
    unfolding KEdgePrefixSum_run_def Let_def
    by (simp add: render_at [OF w i] fin incl)
qed

text \<open>
  C2. After the prefix-sum stage, with the old offsets monotone non-decreasing from
  \<open>ptr_old[0] = 0\<close> to \<open>ptr_old[N] = E\<close> and the atlas decoding to a permutation of the
  particle slots, the new offsets satisfy \<open>ptr_new[0] = 0\<close>,
  \<open>ptr_new[i] \<le> ptr_new[i+1]\<close> for every \<open>i < N\<close>, and \<open>ptr_new[N] = E\<close>. The textures
  have the dimensions the orchestrator gives them.
\<close>

theorem prefix_sum_csr:
  fixes n :: nat
  defines "w \<equiv> particleDataWidth n"
  defines "ptrNew \<equiv> \<lambda>offs order ptrOld texSum texOutput.
     KEdgePrefixSum_run (particleDataWidth n) (particleDataHeight n) (encodedSortOrderWidth n) n
       offs order ptrOld texSum texOutput"
  assumes mono: "\<forall>i<n. ptrOld (coord w i) \<le> ptrOld (coord w (i + 1))"
    and zero: "ptrOld (coord w 0) = 0"
    and total: "ptrOld (coord w n) = E"
    and perm: "bij_betw (getOldID (encodedSortOrderWidth n) n offs order) {0..<n} {0..<n}"
  shows "ptrNew offs order ptrOld texSum texOutput (coord w 0) = 0
       \<and> (\<forall>i<n. ptrNew offs order ptrOld texSum texOutput (coord w i)
                 \<le> ptrNew offs order ptrOld texSum texOutput (coord w (i + 1)))
       \<and> ptrNew offs order ptrOld texSum texOutput (coord w n) = E"
proof -
  let ?h = "particleDataHeight n"
  let ?old = "getOldID (encodedSortOrderWidth n) n offs order"
  let ?cnt = "edge_count (encodedSortOrderWidth n) n w offs order ptrOld"
  have w: "0 < w" unfolding w_def by (rule particleDataWidth_pos)
  have cap: "n < w * ?h" unfolding w_def by (rule particleData_capacity)
  have ex: "ptrNew offs order ptrOld texSum texOutput (coord w i) = (\<Sum>j<i. ?cnt j)"
    if "i \<le> n" for i
    unfolding ptrNew_def w_def [symmetric]
    using prefix_sum_exclusive [OF w, of i ?h] that cap by simp
  have old: "?old i < n" if "i < n" for i
    using perm that by (auto simp: bij_betw_def)
  have nonneg: "0 \<le> ?cnt i" for i
    using mono old [of i] by (simp add: edge_count_def)
  have "(\<Sum>j<n. ?cnt j) = (\<Sum>j\<in>{0..<n}. ptrOld (coord w (?old j + 1)) - ptrOld (coord w (?old j)))"
    by (intro sum.cong) (auto simp: edge_count_def)
  also have "\<dots> = (\<Sum>p\<in>{0..<n}. ptrOld (coord w (p + 1)) - ptrOld (coord w p))"
    by (rule sum.reindex_bij_betw [OF perm, of "\<lambda>p. ptrOld (coord w (p + 1)) - ptrOld (coord w p)"])
  also have "\<dots> = ptrOld (coord w n) - ptrOld (coord w 0)"
    using sum_lessThan_telescope [of "\<lambda>p. ptrOld (coord w p)" n]
    by (simp add: atLeast0LessThan)
  finally have tot: "(\<Sum>j<n. ?cnt j) = E" using zero total by simp
  have step: "ptrNew offs order ptrOld texSum texOutput (coord w i)
            \<le> ptrNew offs order ptrOld texSum texOutput (coord w (i + 1))" if "i < n" for i
    using that nonneg [of i] by (simp add: ex)
  show ?thesis using ex [of 0] ex [of n] tot step by simp
qed
text \<open>
  An example: three particles with 2, 0 and 3 edges, \<open>ptr = [0, 2, 2, 5]\<close> in a texture
  of width 2, and fewer particles than one chunk, so that the atlas is not consulted.
\<close>

definition ptr_0225 :: "int tex" where
  "ptr_0225 c = (if c = (0, 0) then 0 else if c = (1, 0) then 2 else if c = (0, 1) then 2
                 else if c = (1, 1) then 5 else 0)"

lemma dims_3: "particleDataWidth 3 = 2" "particleDataHeight 3 = 2" "encodedSortOrderWidth 3 = 1"
  by code_simp+

lemma getOldID_small: "n < 128 \<Longrightarrow> p < n \<Longrightarrow> getOldID enc_w n 0 order p = p"
  by (simp add: getOldID_def sdiv_nonneg)

theorem prefix_sum_csr_witness:
  "KEdgePrefixSum_run (particleDataWidth 3) (particleDataHeight 3) (encodedSortOrderWidth 3) 3
       0 empty_atlas ptr_0225 (ptr_0225, ptr_0225) ptr_0225 (coord (particleDataWidth 3) 0) = 0
   \<and> KEdgePrefixSum_run (particleDataWidth 3) (particleDataHeight 3) (encodedSortOrderWidth 3) 3
       0 empty_atlas ptr_0225 (ptr_0225, ptr_0225) ptr_0225 (coord (particleDataWidth 3) 0)
     \<le> KEdgePrefixSum_run (particleDataWidth 3) (particleDataHeight 3) (encodedSortOrderWidth 3) 3
       0 empty_atlas ptr_0225 (ptr_0225, ptr_0225) ptr_0225 (coord (particleDataWidth 3) 1)
   \<and> KEdgePrefixSum_run (particleDataWidth 3) (particleDataHeight 3) (encodedSortOrderWidth 3) 3
       0 empty_atlas ptr_0225 (ptr_0225, ptr_0225) ptr_0225 (coord (particleDataWidth 3) 1)
     \<le> KEdgePrefixSum_run (particleDataWidth 3) (particleDataHeight 3) (encodedSortOrderWidth 3) 3
       0 empty_atlas ptr_0225 (ptr_0225, ptr_0225) ptr_0225 (coord (particleDataWidth 3) 2)
   \<and> KEdgePrefixSum_run (particleDataWidth 3) (particleDataHeight 3) (encodedSortOrderWidth 3) 3
       0 empty_atlas ptr_0225 (ptr_0225, ptr_0225) ptr_0225 (coord (particleDataWidth 3) 2)
     \<le> KEdgePrefixSum_run (particleDataWidth 3) (particleDataHeight 3) (encodedSortOrderWidth 3) 3
       0 empty_atlas ptr_0225 (ptr_0225, ptr_0225) ptr_0225 (coord (particleDataWidth 3) 3)
   \<and> KEdgePrefixSum_run (particleDataWidth 3) (particleDataHeight 3) (encodedSortOrderWidth 3) 3
       0 empty_atlas ptr_0225 (ptr_0225, ptr_0225) ptr_0225 (coord (particleDataWidth 3) 3) = 5"
proof -
  have mono: "\<forall>i<3. ptr_0225 (coord (particleDataWidth 3) i)
                  \<le> ptr_0225 (coord (particleDataWidth 3) (i + 1))"
    by (simp add: all_less_3 dims_3 coord_def ptr_0225_def)
  have zero: "ptr_0225 (coord (particleDataWidth 3) 0) = 0"
    by (simp add: dims_3 coord_def ptr_0225_def)
  have total: "ptr_0225 (coord (particleDataWidth 3) 3) = 5"
    by (simp add: dims_3 coord_def ptr_0225_def)
  have "bij_betw (\<lambda>p. p) {0..<3::nat} {0..<3}" by (simp add: bij_betw_def)
  then have perm: "bij_betw (getOldID (encodedSortOrderWidth 3) 3 0 empty_atlas) {0..<3} {0..<3}"
    by (rule bij_betw_cong [THEN iffD1, rotated]) (simp add: getOldID_small)
  note t = prefix_sum_csr [OF mono zero total perm, of "(ptr_0225, ptr_0225)" ptr_0225]
  note s = conjunct1 [OF conjunct2 [OF t], rule_format]
  have l: "(0::nat) < 3" "(1::nat) < 3" "(2::nat) < 3" by simp_all
  from conjunct1 [OF t] s [OF l(1)] s [OF l(2)] s [OF l(3)] conjunct2 [OF conjunct2 [OF t]]
  show ?thesis by (simp add: numeral_2_eq_2 numeral_3_eq_3)
qed

section \<open>Coarse-map and physics passes\<close>

text \<open>
  \<open>KEdgeCoarseMap.run\<close>: a full-screen pass over the coarse texture. \<open>KPhysicsSimulation.run\<close>
  draws one point per particle index; point \<open>idx\<close> lands on the texel
  \<open>(idx % w, idx / w)\<close>, so the texel \<open>(x, y)\<close> of the \<open>w \<times> h\<close> viewport is written by the
  point \<open>y w + x\<close> when that index is below the particle count.
\<close>

definition KEdgeCoarseMap_run :: "nat \<Rightarrow> nat \<Rightarrow> nat \<Rightarrow> nat \<Rightarrow> nat \<Rightarrow> int tex \<Rightarrow> int tex \<Rightarrow> int tex" where
  "KEdgeCoarseMap_run cw ch data_w u_stride n_count texEdgePtr texCoarseMap =
     render cw ch (\<lambda>c. Some (FS_COARSE_MAP_main n_count data_w u_stride cw texEdgePtr c)) texCoarseMap"

definition point_pass :: "nat \<Rightarrow> nat \<Rightarrow> nat \<Rightarrow> (nat \<Rightarrow> 'a option) \<Rightarrow> 'a tex \<Rightarrow> 'a tex" where
  "point_pass w h n main target =
     (\<lambda>c. if fst c < w \<and> snd c < h \<and> snd c * w + fst c < n
          then (case main (snd c * w + fst c) of Some v \<Rightarrow> v | None \<Rightarrow> target c)
          else target c)"

definition KPhysicsSimulation_run ::
  "physics_params \<Rightarrow> nat \<Rightarrow> vec4 tex \<times> vec4 tex \<times> idmass tex \<Rightarrow> int tex \<Rightarrow> int tex
   \<Rightarrow> vec4 tex \<times> vec4 tex \<times> idmass tex \<Rightarrow> vec4 tex \<times> vec4 tex \<times> idmass tex" where
  "KPhysicsSimulation_run prm data_h ins inTexEdgePtr inTexEdgeStore outs =
     (case ins of (inPos, inVel, inIdMass) \<Rightarrow>
      case outs of (outPos, outVel, outIdMass) \<Rightarrow>
        let main = KPhysicsSimulation_main prm inPos inVel inIdMass inTexEdgePtr inTexEdgeStore;
            w = DATA_W prm;
            n = PARTICLE_COUNT prm
        in (point_pass w data_h n (\<lambda>i. map_option fst (main i)) outPos,
            point_pass w data_h n (\<lambda>i. map_option (\<lambda>r. fst (snd r)) (main i)) outVel,
            point_pass w data_h n (\<lambda>i. map_option (\<lambda>r. snd (snd r)) (main i)) outIdMass))"

section \<open>Edge relocation (\<open>KEdgeRelocation\<close>)\<close>

text \<open>
  \<open>uint(floor(x + 0.5))\<close> on an integer-valued float. The shading language leaves the
  conversion of a negative float to \<open>uint\<close> undefined; the shader's comparison with
  \<open>4294967295u\<close> expects \<open>-1\<close> to wrap around, and so does the model.
\<close>

definition to_uint :: "int \<Rightarrow> 32 word" where
  "to_uint x = word_of_int x"

text \<open>
  The bounded linear walk from the coarse guess. The first argument counts the
  iterations that are left of the 256.
\<close>

fun refine_owner :: "nat \<Rightarrow> nat \<Rightarrow> nat \<Rightarrow> int tex \<Rightarrow> 32 word \<Rightarrow> 32 word \<Rightarrow> 32 word" where
  "refine_owner 0 n_count data_w texEdgePtrNew e_new p_new = p_new"
| "refine_owner (Suc k) n_count data_w texEdgePtrNew e_new p_new =
     (if p_new \<ge> of_nat n_count then p_new
      else
        let pCoord = (unat p_new mod data_w, unat p_new div data_w);
            start = to_uint (texEdgePtrNew pCoord);
            pCoordNext = (unat (p_new + 1) mod data_w, unat (p_new + 1) div data_w);
            startNext = to_uint (texEdgePtrNew pCoordNext);
            count = startNext - start
        in if e_new \<ge> start \<and> e_new < start + count then p_new
           else refine_owner k n_count data_w texEdgePtrNew e_new (p_new + 1))"

record relocation_params =
  r_encodedSortOrderWidth :: nat
  r_edgeStoreWidth :: nat
  r_edgeCount :: nat
  r_particleCount :: nat
  r_particleDataWidth :: nat
  r_slotsRes_x :: nat
  r_stride :: nat
  r_coarseWidth :: nat
  r_sortOffset :: nat

text \<open>The fragment shader's \<open>main\<close> for the texel \<open>c\<close> of the new edge store.\<close>

definition KEdgeRelocation_main ::
  "relocation_params \<Rightarrow> int tex \<Rightarrow> int tex \<Rightarrow> int tex \<Rightarrow> int tex \<Rightarrow> atlas \<Rightarrow> idmass tex
   \<Rightarrow> int tex \<Rightarrow> nat \<times> nat \<Rightarrow> int" where
  "KEdgeRelocation_main rp texEdgeStoreOld texCoarseMap texEdgePtrNew texEdgePtrOld order
       texIdMassOld texIdentityNew c =
     (let flatIdx = snd c * r_edgeStoreWidth rp + fst c;
          e_new = (of_nat flatIdx :: 32 word)
      in
      if e_new \<ge> of_nat (r_edgeCount rp) then - 1
      else
        let coarseIdx = flatIdx div r_stride rp;
            coarseCoord = (coarseIdx mod r_coarseWidth rp, coarseIdx div r_coarseWidth rp);
            p_guess = to_uint (texCoarseMap coarseCoord);
            p_new = refine_owner 256 (r_particleCount rp) (r_particleDataWidth rp) texEdgePtrNew
                      e_new p_guess;
            pNewCoord = (unat p_new mod r_particleDataWidth rp, unat p_new div r_particleDataWidth rp);
            start_new = to_uint (texEdgePtrNew pNewCoord);
            offset = e_new - start_new;
            p_old = (of_nat (getOldID (r_encodedSortOrderWidth rp) (r_particleCount rp)
                               (r_sortOffset rp) order (unat p_new)) :: 32 word);
            pOldCoord = (unat p_old mod r_particleDataWidth rp, unat p_old div r_particleDataWidth rp);
            start_old = to_uint (texEdgePtrOld pOldCoord);
            e_old = start_old + offset;
            eOldCoord = (unat e_old mod r_edgeStoreWidth rp, unat e_old div r_edgeStoreWidth rp);
            oldTargetPhys = to_uint (texEdgeStoreOld eOldCoord)
        in
        if oldTargetPhys = 4294967295 then - 1
        else
          let oldTargetCoord = (unat oldTargetPhys mod r_particleDataWidth rp,
                                unat oldTargetPhys div r_particleDataWidth rp);
              pid_u = to_uint (pid (texIdMassOld oldTargetCoord));
              identityCoord = (unat pid_u mod r_slotsRes_x rp, unat pid_u div r_slotsRes_x rp)
          in texIdentityNew identityCoord)"

definition KEdgeRelocation_run ::
  "relocation_params \<Rightarrow> nat \<Rightarrow> int tex \<Rightarrow> int tex \<Rightarrow> int tex \<Rightarrow> int tex \<Rightarrow> atlas \<Rightarrow> idmass tex
   \<Rightarrow> int tex \<Rightarrow> int tex \<Rightarrow> int tex" where
  "KEdgeRelocation_run rp edge_h texEdgeStoreOld texCoarseMap texEdgePtrNew texEdgePtrOld order
       texIdMassOld texIdentityNew texEdgeStoreNew =
     render (r_edgeStoreWidth rp) edge_h
       (\<lambda>c. Some (KEdgeRelocation_main rp texEdgeStoreOld texCoarseMap texEdgePtrNew texEdgePtrOld
                     order texIdMassOld texIdentityNew c))
       texEdgeStoreNew"

section \<open>One tick (layout.js, \<open>GraphLayout.run\<close>)\<close>

text \<open>
  The numeric fields of the engine that a tick reads, and the textures it owns
  (\<open>tickCounter\<close> is the field \<open>passCounter\<close>). The
  sentinel pass that opens a tick writes only scratch texels; the physics pass
  overwrites every scratch texel of a particle slot, and no later pass reads another
  scratch texel of these three textures, so the sentinel pass is left out. The two
  buffers \<open>texSum\<close> are the private scratch of the prefix-sum kernel, which overwrites
  them before it reads them.
\<close>

record engine_numbers =
  en_particleCount :: nat
  en_edgeCount :: nat
  en_edgeCoarseMapStride :: nat
  en_gravityWindow :: nat
  en_dt :: real
  en_G :: real
  en_springK :: real
  en_eps :: real
  en_damping :: real

record engine_textures =
  texPositionAndSFC :: "vec4 tex"
  texScratchPositionAndSFC :: "vec4 tex"
  texVelocity :: "vec4 tex"
  texScratchVelocity :: "vec4 tex"
  texIdMassTint :: "idmass tex"
  texScratchIdMassTint :: "idmass tex"
  texEncodedSortOrder :: atlas
  texEdgePtr :: "int tex"
  texScratchEdgePtr :: "int tex"
  texEdgeStore :: "int tex"
  texScratchEdgeStore :: "int tex"
  texCoarseMap :: "int tex"
  texIdentity :: "int tex"
  texSum :: "int tex \<times> int tex"
  tickCounter :: nat

definition physics_params_of :: "engine_numbers \<Rightarrow> physics_params" where
  "physics_params_of en = \<lparr>
     WINDOW = en_gravityWindow en,
     DATA_W = particleDataWidth (en_particleCount en),
     PARTICLE_COUNT = en_particleCount en,
     EDGE_STORE_W = edgeStoreWidth (en_edgeCount en),
     u_dt = en_dt en,
     u_G = en_G en,
     u_springK = en_springK en,
     u_eps = en_eps en,
     u_damping = en_damping en \<rparr>"

definition relocation_params_of :: "engine_numbers \<Rightarrow> nat \<Rightarrow> relocation_params" where
  "relocation_params_of en offs = \<lparr>
     r_encodedSortOrderWidth = encodedSortOrderWidth (en_particleCount en),
     r_edgeStoreWidth = edgeStoreWidth (en_edgeCount en),
     r_edgeCount = en_edgeCount en,
     r_particleCount = en_particleCount en,
     r_particleDataWidth = particleDataWidth (en_particleCount en),
     r_slotsRes_x = particleDataWidth (en_particleCount en),
     r_stride = (if en_edgeCoarseMapStride en = 0 then 128 else en_edgeCoarseMapStride en),
     r_coarseWidth = coarseWidth (en_edgeCount en) (en_edgeCoarseMapStride en),
     r_sortOffset = offs \<rparr>"

text \<open>The particle passes of a tick: physics into scratch, sort, reshuffle into current.\<close>

definition tick_scratch :: "engine_numbers \<Rightarrow> engine_textures \<Rightarrow> vec4 tex \<times> vec4 tex \<times> idmass tex" where
  "tick_scratch en st =
     KPhysicsSimulation_run (physics_params_of en) (particleDataHeight (en_particleCount en))
       (texPositionAndSFC st, texVelocity st, texIdMassTint st) (texEdgePtr st) (texEdgeStore st)
       (texScratchPositionAndSFC st, texScratchVelocity st, texScratchIdMassTint st)"

definition tick_order :: "engine_numbers \<Rightarrow> engine_textures \<Rightarrow> atlas" where
  "tick_order en st =
     KSortEncoder_run (en_particleCount en) (sortOffset_of (tickCounter st))
       (fst (tick_scratch en st)) (texEncodedSortOrder st)"

definition tick_current :: "engine_numbers \<Rightarrow> engine_textures \<Rightarrow> vec4 tex \<times> vec4 tex \<times> idmass tex" where
  "tick_current en st =
     KParticleReshuffle_run (en_particleCount en) (sortOffset_of (tickCounter st))
       (tick_order en st) (tick_scratch en st)
       (texPositionAndSFC st, texVelocity st, texIdMassTint st)"

definition GraphLayout_run :: "engine_numbers \<Rightarrow> engine_textures \<Rightarrow> engine_textures" where
  "GraphLayout_run en st =
     (let n = en_particleCount en;
          e = en_edgeCount en;
          w = particleDataWidth n;
          h = particleDataHeight n;
          sortOffset = sortOffset_of (tickCounter st);
          scratch = tick_scratch en st;
          order = tick_order en st;
          current = tick_current en st;
          identity = KIdentityMirror_run w h n (snd (snd current));
          ptrNew = KEdgePrefixSum_run w h (encodedSortOrderWidth n) n sortOffset order
                     (texEdgePtr st) (texSum st) (texScratchEdgePtr st);
          cm = KEdgeCoarseMap_run (coarseWidth e (en_edgeCoarseMapStride en))
                 (coarseHeight e (en_edgeCoarseMapStride en)) w (en_edgeCoarseMapStride en) n
                 ptrNew (texCoarseMap st);
          storeNew = KEdgeRelocation_run (relocation_params_of en sortOffset) (edgeStoreHeight e)
                       (texEdgeStore st) cm ptrNew (texEdgePtr st) order (snd (snd scratch))
                       identity (texScratchEdgeStore st)
      in st \<lparr>
           texPositionAndSFC := fst current,
           texVelocity := fst (snd current),
           texIdMassTint := snd (snd current),
           texScratchPositionAndSFC := fst scratch,
           texScratchVelocity := fst (snd scratch),
           texScratchIdMassTint := snd (snd scratch),
           texEncodedSortOrder := order,
           texIdentity := identity,
           texCoarseMap := cm,
           texEdgeStore := storeNew,
           texScratchEdgeStore := texEdgeStore st,
           texEdgePtr := ptrNew,
           texScratchEdgePtr := texEdgePtr st,
           tickCounter := tickCounter st + 1 \<rparr>)"
subsection \<open>A tick with a zero time step\<close>

text \<open>
  An engine with one particle of PID 0 at the origin, moving with velocity
  \<open>(1, 0, 0)\<close>, no edges, the constructor's damping \<open>0.002\<close>, and \<open>dt\<close> set to \<open>0\<close>.
\<close>

definition en_one :: engine_numbers where
  "en_one = \<lparr> en_particleCount = 1, en_edgeCount = 0, en_edgeCoarseMapStride = 128,
     en_gravityWindow = 16, en_dt = 0, en_G = - 0.0001, en_springK = 1, en_eps = 0.1,
     en_damping = 0.002 \<rparr>"

definition st_one :: engine_textures where
  "st_one = \<lparr>
     texPositionAndSFC = (\<lambda>c. (Vec3 0 0 0, 0)),
     texScratchPositionAndSFC = (\<lambda>c. (Vec3 0 0 0, 0)),
     texVelocity = (\<lambda>c. (Vec3 1 0 0, 0)),
     texScratchVelocity = (\<lambda>c. (Vec3 0 0 0, 0)),
     texIdMassTint = (\<lambda>c. \<lparr> pid = 0, mass = 1, tint = 0, edgePtrStart = 0 \<rparr>),
     texScratchIdMassTint = (\<lambda>c. \<lparr> pid = 0, mass = 1, tint = 0, edgePtrStart = 0 \<rparr>),
     texEncodedSortOrder = (\<lambda>c. []),
     texEdgePtr = (\<lambda>c. 0),
     texScratchEdgePtr = (\<lambda>c. 0),
     texEdgeStore = (\<lambda>c. - 1),
     texScratchEdgeStore = (\<lambda>c. - 1),
     texCoarseMap = (\<lambda>c. 0),
     texIdentity = (\<lambda>c. - 1),
     texSum = (\<lambda>c. 0, \<lambda>c. 0),
     tickCounter = 0 \<rparr>"

text \<open>PID, position and velocity of the particle in slot \<open>i\<close> of the current textures.\<close>

definition particle_at :: "nat \<Rightarrow> engine_textures \<Rightarrow> nat \<Rightarrow> int \<times> vec3 \<times> vec3" where
  "particle_at n st i =
     (pid (texIdMassTint st (coord (particleDataWidth n) i)),
      fst (texPositionAndSFC st (coord (particleDataWidth n) i)),
      fst (texVelocity st (coord (particleDataWidth n) i)))"

lemma scale_zero [simp]: "scale 0 v = 0"
  by (simp add: scale_def zero_vec3_def)

lemma physics_main_zero_dt:
  assumes "i < PARTICLE_COUNT prm" "u_dt prm = 0"
  shows "KPhysicsSimulation_main prm uPos uVel uMass uEdgePtr uEdgeStore i
       = Some ((fst (uPos (coord (DATA_W prm) i)), getSFCKey (fst (uPos (coord (DATA_W prm) i)))),
               (scale (1 - u_damping prm) (fst (uVel (coord (DATA_W prm) i))),
                snd (uVel (coord (DATA_W prm) i))),
               uMass (coord (DATA_W prm) i))"
  using assms by (simp add: KPhysicsSimulation_main_def Let_def fetch_at_nat)

lemma point_pass_at:
  assumes "0 < w" "i < w * h" "i < n"
  shows "point_pass w h n main target (coord w i)
       = (case main i of Some v \<Rightarrow> v | None \<Rightarrow> target (coord w i))"
  using viewport_flat [OF assms(1,2)] assms(3) by (simp add: point_pass_def)

lemma tick_scratch_zero_dt:
  assumes i: "i < en_particleCount en" and dt: "en_dt en = 0"
  shows "slot_tuple (en_particleCount en) (tick_scratch en st) i
       = ((fst (texPositionAndSFC st (coord (particleDataWidth (en_particleCount en)) i)),
           getSFCKey (fst (texPositionAndSFC st (coord (particleDataWidth (en_particleCount en)) i)))),
          (scale (1 - en_damping en)
             (fst (texVelocity st (coord (particleDataWidth (en_particleCount en)) i))),
           snd (texVelocity st (coord (particleDataWidth (en_particleCount en)) i))),
          texIdMassTint st (coord (particleDataWidth (en_particleCount en)) i))"
proof -
  let ?n = "en_particleCount en"
  let ?prm = "physics_params_of en"
  have p: "i < PARTICLE_COUNT ?prm" "u_dt ?prm = 0" "DATA_W ?prm = particleDataWidth ?n"
    "u_damping ?prm = en_damping en" "PARTICLE_COUNT ?prm = ?n"
    using i dt by (simp_all add: physics_params_of_def)
  have c: "i < particleDataWidth ?n * particleDataHeight ?n"
    using i particleData_capacity [of ?n] by simp
  note pp = point_pass_at [OF particleDataWidth_pos c i]
  show ?thesis
    unfolding slot_tuple_def tick_scratch_def KPhysicsSimulation_run_def Let_def p(3,5)
    using physics_main_zero_dt [OF p(1,2)]
    by (simp add: pp p(3,4))
qed

lemma tick_current_fields:
  "texPositionAndSFC (GraphLayout_run en st) = fst (tick_current en st)"
  "texVelocity (GraphLayout_run en st) = fst (snd (tick_current en st))"
  "texIdMassTint (GraphLayout_run en st) = snd (snd (tick_current en st))"
  by (simp_all add: GraphLayout_run_def Let_def)

lemma particle_at_tick:
  fixes st :: engine_textures
  assumes j: "j < en_particleCount en" and dt: "en_dt en = 0"
  defines "s \<equiv> reshuffle_src (en_particleCount en) (sortOffset_of (tickCounter st))
                 (fst (tick_scratch en st)) j"
  shows "particle_at (en_particleCount en) (GraphLayout_run en st) j
       = (case particle_at (en_particleCount en) st s of
            (p, x, v) \<Rightarrow> (p, x, scale (1 - en_damping en) v))"
proof -
  let ?n = "en_particleCount en"
  have s: "s < ?n" unfolding s_def by (rule reshuffle_src_less [OF j])
  have "slot_tuple ?n (tick_current en st) j = slot_tuple ?n (tick_scratch en st) s"
    unfolding tick_current_def tick_order_def s_def by (rule reshuffle_run_slot [OF j])
  also note tick_scratch_zero_dt [OF s dt, of st]
  finally show ?thesis
    by (simp add: particle_at_def tick_current_fields slot_tuple_def split_beta)
qed

text \<open>
  C6, as stated: with \<open>dt = 0\<close> a tick leaves the position and the velocity of every
  particle as they were. The single particle of the example keeps its PID and its
  position, and its velocity \<open>(1, 0, 0)\<close> becomes \<open>(0.998, 0, 0)\<close>.
\<close>

theorem zero_dt_counterexample:
  "en_dt en_one = 0
   \<and> particle_at 1 st_one 0 = (0, Vec3 0 0 0, Vec3 1 0 0)
   \<and> particle_at 1 (GraphLayout_run en_one st_one) 0 = (0, Vec3 0 0 0, Vec3 0.998 0 0)"
proof -
  have n: "en_particleCount en_one = 1" and dt: "en_dt en_one = 0"
    and d: "en_damping en_one = 0.002"
    by (simp_all add: en_one_def)
  have j: "0 < en_particleCount en_one" by (simp add: n)
  have a: "particle_at k st_one x = (0, Vec3 0 0 0, Vec3 1 0 0)" for k x
    by (simp add: particle_at_def st_one_def)
  from particle_at_tick [OF j dt, of st_one]
  show ?thesis by (simp add: n d dt a scale_def)
qed

text \<open>
  C6, amended. With \<open>dt = 0\<close>, one tick reshuffles and relocates and does not alter
  positions; it multiplies every velocity by \<open>1 - damping\<close>. The multiset of
  (PID, position, velocity) triples after the tick is the multiset of
  (PID, position, \<open>(1 - damping)\<close> velocity) triples before it.
\<close>

theorem zero_dt_tick:
  assumes dt: "en_dt en = 0"
  shows "image_mset (particle_at (en_particleCount en) (GraphLayout_run en st))
           (mset_set {0..<en_particleCount en})
       = image_mset (\<lambda>i. case particle_at (en_particleCount en) st i of
                            (p, x, v) \<Rightarrow> (p, x, scale (1 - en_damping en) v))
           (mset_set {0..<en_particleCount en})"
proof -
  let ?n = "en_particleCount en"
  let ?src = "reshuffle_src ?n (sortOffset_of (tickCounter st)) (fst (tick_scratch en st))"
  let ?f = "\<lambda>i. case particle_at ?n st i of (p, x, v) \<Rightarrow> (p, x, scale (1 - en_damping en) v)"
  have "image_mset (particle_at ?n (GraphLayout_run en st)) (mset_set {0..<?n})
      = image_mset (\<lambda>j. ?f (?src j)) (mset_set {0..<?n})"
    using particle_at_tick [OF _ dt, of _ st] by (intro image_mset_cong) simp
  also have "\<dots> = image_mset ?f (image_mset ?src (mset_set {0..<?n}))"
    by (simp add: multiset.map_comp comp_def)
  also have "image_mset ?src (mset_set {0..<?n}) = mset_set (?src ` {0..<?n})"
    by (rule image_mset_mset_set [OF reshuffle_src_inj])
  also have "?src ` {0..<?n} = {0..<?n}" by (rule reshuffle_src_image)
  finally show ?thesis .
qed

theorem zero_dt_tick_witness:
  "image_mset (particle_at (en_particleCount en_one) (GraphLayout_run en_one st_one))
           (mset_set {0..<en_particleCount en_one})
       = image_mset (\<lambda>i. case particle_at (en_particleCount en_one) st_one i of
                            (p, x, v) \<Rightarrow> (p, x, scale (1 - en_damping en_one) v))
           (mset_set {0..<en_particleCount en_one})"
proof -
  have dt: "en_dt en_one = 0" by (simp add: en_one_def)
  show ?thesis by (rule zero_dt_tick [OF dt])
qed

subsection \<open>One pass of the network as a parallel step\<close>

text \<open>
  The exchanges of one pass act on disjoint pairs, so the pass replaces the key at
  every position \<open>p\<close> by the smaller or the larger of the keys at \<open>p\<close> and at its
  partner \<open>p ^ j\<close>.
\<close>

definition pass_key :: "nat \<Rightarrow> nat \<Rightarrow> ('k::linorder) list \<Rightarrow> nat \<Rightarrow> 'k" where
  "pass_key k j keys p =
     (let q = p XOR j in
      if (p < q) = (min p q AND k = 0) then min (keys ! p) (keys ! q)
      else max (keys ! p) (keys ! q))"

lemma xor_xor_same: "(p XOR j) XOR j = (p::nat)"
  by (simp add: xor.assoc)

lemma xor_neq: "0 < j \<Longrightarrow> p XOR j \<noteq> (p::nat)"
proof
  assume j: "0 < j" and "p XOR j = p"
  then have "p XOR (p XOR j) = p XOR p" by simp
  then have "j = 0" by (simp add: xor.assoc [symmetric])
  with j show False by simp
qed

lemma fold_compare_exchange_keys:
  "fst (fold (compare_exchange k j) is (keys, ids))
     = fold (\<lambda>i ks. fst (compare_exchange k j i (ks, []))) is keys"
proof (induction "is" arbitrary: keys ids)
  case Nil
  show ?case by simp
next
  case (Cons i "is")
  obtain ks' ids' where st: "compare_exchange k j i (keys, ids) = (ks', ids')"
    by (cases "compare_exchange k j i (keys, ids)")
  have "ks' = fst (compare_exchange k j i (keys, []))"
    using st by (auto simp: compare_exchange_def Let_def split: if_splits)
  then show ?case using Cons [of ks' ids'] by (simp add: st)
qed

lemma pass_prefix:
  fixes keys :: "('k::linorder) list"
  assumes n: "length keys = n" and j: "0 < j" and bound: "\<And>p. p < n \<Longrightarrow> p XOR j < n"
    and t: "t \<le> n"
  shows "fold (\<lambda>i ks. fst (compare_exchange k j i (ks, []))) [0..<t] keys
       = map (\<lambda>p. if min p (p XOR j) < t then pass_key k j keys p else keys ! p) [0..<n]"
  using t
proof (induction t)
  case 0
  have "map (\<lambda>p. keys ! p) [0..<length keys] = keys" by (rule map_nth)
  then show ?case by (simp add: n)
next
  case (Suc t)
  let ?cur = "map (\<lambda>p. if min p (p XOR j) < t then pass_key k j keys p else keys ! p) [0..<n]"
  define l where "l = t XOR j"
  have tn: "t < n" using Suc.prems by simp
  have ln: "l < n" unfolding l_def using bound tn by simp
  have lt: "l \<noteq> t" unfolding l_def using xor_neq [OF j] by simp
  have lj: "l XOR j = t" unfolding l_def by (rule xor_xor_same)
  have prev: "fold (\<lambda>i ks. fst (compare_exchange k j i (ks, []))) [0..<t] keys = ?cur"
    using Suc by simp
  have step: "fst (compare_exchange k j t (?cur, []))
            = map (\<lambda>p. if min p (p XOR j) < Suc t then pass_key k j keys p else keys ! p) [0..<n]"
  proof (cases "l > t")
    case True
    have ct: "?cur ! t = keys ! t" using tn True by (simp add: l_def [symmetric])
    have cl: "?cur ! l = keys ! l" using ln True lj by simp
    show ?thesis
    proof (rule nth_equalityI)
      show "length (fst (compare_exchange k j t (?cur, [])))
          = length (map (\<lambda>p. if min p (p XOR j) < Suc t then pass_key k j keys p else keys ! p) [0..<n])"
        by (simp add: compare_exchange_def Let_def)
    next
      fix p assume "p < length (fst (compare_exchange k j t (?cur, [])))"
      then have pn: "p < n" by (simp add: compare_exchange_def Let_def split: if_splits)
      consider "p = t" | "p = l" | "p \<noteq> t" "p \<noteq> l" by blast
      then show "fst (compare_exchange k j t (?cur, [])) ! p
          = map (\<lambda>p. if min p (p XOR j) < Suc t then pass_key k j keys p else keys ! p) [0..<n] ! p"
      proof cases
        case 1
        then show ?thesis
          using True tn ln lt ct cl
          by (auto simp: compare_exchange_def Let_def l_def [symmetric] pass_key_def min_def max_def
              nth_list_update)
      next
        case 2
        then show ?thesis
          using True tn ln lt ct cl lj
          by (auto simp: compare_exchange_def Let_def l_def [symmetric] pass_key_def min_def max_def
              nth_list_update)
      next
        case 3
        have "p XOR j \<noteq> t" using 3(2) xor_xor_same [of p j] by (auto simp: l_def)
        then have m: "min p (p XOR j) \<noteq> t" using 3(1) by (simp add: min_def)
        then have "(min p (p XOR j) < Suc t) = (min p (p XOR j) < t)" by linarith
        then show ?thesis
          using 3 pn tn ln
          by (simp add: compare_exchange_def Let_def l_def [symmetric] nth_list_update)
      qed
    qed
  next
    case False
    then have lt': "l < t" using lt by simp
    have "min p (p XOR j) \<noteq> t" for p
    proof (cases "p = t")
      case True
      then show ?thesis using lt' by (simp add: l_def [symmetric])
    next
      case pt: False
      show ?thesis
      proof (cases "p XOR j = t")
        case True
        then have "p = l" using xor_xor_same [of p j] by (simp add: l_def)
        then show ?thesis using lt' lj by simp
      next
        case False
        then show ?thesis using pt by (simp add: min_def)
      qed
    qed
    then have "(min p (p XOR j) < Suc t) = (min p (p XOR j) < t)" for p
      by (metis less_Suc_eq)
    then show ?thesis
      using False by (simp add: compare_exchange_def Let_def l_def [symmetric])
  qed
  show ?case by (simp add: prev step)
qed

lemma i_loop_keys:
  fixes keys :: "('k::linorder) list"
  assumes n: "length keys = n" and j: "0 < j" and bound: "\<And>p. p < n \<Longrightarrow> p XOR j < n"
  shows "fst (i_loop n k j (keys, ids)) = map (pass_key k j keys) [0..<n]"
proof -
  have "min p (p XOR j) < n" if "p < n" for p using that by (simp add: min_def)
  then have "map (\<lambda>p. if min p (p XOR j) < n then pass_key k j keys p else keys ! p) [0..<n]
           = map (pass_key k j keys) [0..<n]"
    by simp
  then show ?thesis
    unfolding i_loop_def fold_compare_exchange_keys
    using pass_prefix [OF n j bound order_refl, of k] by simp
qed
subsection \<open>Zero-one sequences\<close>

text \<open>
  A zero-one sequence of a given length is bitonic when its ones, or its zeros, form
  one interval.
\<close>

definition shape :: "(nat \<Rightarrow> bool) \<Rightarrow> nat \<Rightarrow> bool" where
  "shape u len =
     (\<exists>a e. a \<le> e \<and> e \<le> len
        \<and> ((\<forall>i<len. u i = (a \<le> i \<and> i < e)) \<or> (\<forall>i<len. u i = (\<not> (a \<le> i \<and> i < e)))))"

lemma shape_ones: "a \<le> e \<Longrightarrow> e \<le> len \<Longrightarrow> \<forall>i<len. u i = (a \<le> i \<and> i < e) \<Longrightarrow> shape u len"
  unfolding shape_def by blast

lemma shape_zeros: "a \<le> e \<Longrightarrow> e \<le> len \<Longrightarrow> \<forall>i<len. u i = (\<not> (a \<le> i \<and> i < e)) \<Longrightarrow> shape u len"
  unfolding shape_def by blast

lemma half_cleaner_ones:
  assumes ae: "a \<le> e" "e \<le> 2 * h" and u: "\<forall>i<2 * h. u i = (a \<le> i \<and> i < e)"
  shows "shape (\<lambda>i. u i \<and> u (i + h)) h"
    and "shape (\<lambda>i. u i \<or> u (i + h)) h"
    and "(\<forall>i<h. \<not> (u i \<and> u (i + h))) \<or> (\<forall>i<h. u i \<or> u (i + h))"
proof -
  have lo: "u i = (a \<le> i \<and> i < e)" if "i < h" for i using u that by simp
  have hi: "u (i + h) = (a \<le> i + h \<and> i + h < e)" if "i < h" for i using u that by simp
  show "shape (\<lambda>i. u i \<and> u (i + h)) h"
  proof (cases "a + h \<le> e")
    case True
    show ?thesis
      by (rule shape_ones [of a "e - h"]) (use True ae lo hi in auto)
  next
    case False
    show ?thesis
      by (rule shape_ones [of 0 0]) (use False ae lo hi in auto)
  qed
  show "shape (\<lambda>i. u i \<or> u (i + h)) h"
  proof (cases "a + h \<le> e")
    case True
    show ?thesis
      by (rule shape_ones [of 0 h]) (use True ae lo hi in auto)
  next
    case False
    consider "e \<le> h" | "h \<le> a" | "a < h" "h < e" by linarith
    then show ?thesis
    proof cases
      case 1
      show ?thesis by (rule shape_ones [of a e]) (use 1 False ae lo hi in auto)
    next
      case 2
      show ?thesis by (rule shape_ones [of "a - h" "e - h"]) (use 2 False ae lo hi in auto)
    next
      case 3
      show ?thesis by (rule shape_zeros [of "e - h" a]) (use 3 False ae lo hi in auto)
    qed
  qed
  show "(\<forall>i<h. \<not> (u i \<and> u (i + h))) \<or> (\<forall>i<h. u i \<or> u (i + h))"
  proof (cases "a + h \<le> e")
    case True
    then have "\<forall>i<h. u i \<or> u (i + h)" using ae lo hi by auto
    then show ?thesis ..
  next
    case False
    then have "\<forall>i<h. \<not> (u i \<and> u (i + h))" using ae lo hi by auto
    then show ?thesis ..
  qed
qed

lemma shape_not: "shape (\<lambda>i. \<not> u i) len = shape u len"
  unfolding shape_def by (intro ex_cong1) auto

lemma half_cleaner:
  assumes "shape u (2 * h)"
  shows "shape (\<lambda>i. u i \<and> u (i + h)) h"
    and "shape (\<lambda>i. u i \<or> u (i + h)) h"
    and "(\<forall>i<h. \<not> (u i \<and> u (i + h))) \<or> (\<forall>i<h. u i \<or> u (i + h))"
proof -
  from assms obtain a e where ae: "a \<le> e" "e \<le> 2 * h"
    and c: "(\<forall>i<2 * h. u i = (a \<le> i \<and> i < e)) \<or> (\<forall>i<2 * h. u i = (\<not> (a \<le> i \<and> i < e)))"
    unfolding shape_def by blast
  from c have "shape (\<lambda>i. u i \<and> u (i + h)) h \<and> shape (\<lambda>i. u i \<or> u (i + h)) h
      \<and> ((\<forall>i<h. \<not> (u i \<and> u (i + h))) \<or> (\<forall>i<h. u i \<or> u (i + h)))"
  proof
    assume "\<forall>i<2 * h. u i = (a \<le> i \<and> i < e)"
    from half_cleaner_ones [OF ae this] show ?thesis by blast
  next
    assume z: "\<forall>i<2 * h. u i = (\<not> (a \<le> i \<and> i < e))"
    let ?v = "\<lambda>i. \<not> u i"
    have v: "\<forall>i<2 * h. ?v i = (a \<le> i \<and> i < e)" using z by simp
    note r = half_cleaner_ones [OF ae v]
    have 1: "shape (\<lambda>i. u i \<and> u (i + h)) h"
      using r(2) shape_not [of "\<lambda>i. u i \<and> u (i + h)" h] by simp
    have 2: "shape (\<lambda>i. u i \<or> u (i + h)) h"
      using r(1) shape_not [of "\<lambda>i. u i \<or> u (i + h)" h] by simp
    have 3: "(\<forall>i<h. \<not> (u i \<and> u (i + h))) \<or> (\<forall>i<h. u i \<or> u (i + h))"
      using r(3) by auto
    show ?thesis using 1 2 3 by blast
  qed
  then show "shape (\<lambda>i. u i \<and> u (i + h)) h"
    and "shape (\<lambda>i. u i \<or> u (i + h)) h"
    and "(\<forall>i<h. \<not> (u i \<and> u (i + h))) \<or> (\<forall>i<h. u i \<or> u (i + h))"
    by blast+
qed

subsection \<open>Index arithmetic of one pass\<close>

lemma xor_pow2_add:
  fixes p :: nat
  assumes "\<not> bit p b"
  shows "p XOR 2 ^ b = p + 2 ^ b"
proof -
  have "p XOR 2 ^ b = flip_bit b p" by (simp add: flip_bit_def)
  also have "\<dots> = set_bit b p" using assms by (simp add: flip_bit_eq_if)
  also have "\<dots> = p + 2 ^ b" using assms by (simp add: set_bit_eq)
  finally show ?thesis .
qed

lemma xor_pow2_nat:
  fixes p :: nat
  shows "p XOR 2 ^ b = (if bit p b then p - 2 ^ b else p + 2 ^ b)"
proof (cases "bit p b")
  case False
  then show ?thesis by (simp add: xor_pow2_add)
next
  case True
  let ?q = "p XOR 2 ^ b"
  have nb: "\<not> bit ?q b" using True by (simp add: bit_xor_iff bit_exp_iff)
  have "?q XOR 2 ^ b = p" by (rule xor_xor_same)
  with xor_pow2_add [OF nb] have "p = ?q + 2 ^ b" by simp
  then have "?q = p - 2 ^ b" by simp
  with True show ?thesis by simp
qed

lemma bit_upper_half:
  fixes p :: nat
  shows "bit p b = (\<not> p mod (2 * 2 ^ b) < 2 ^ b)"
proof -
  have m: "p mod (2 ^ b * 2) = 2 ^ b * (p div 2 ^ b mod 2) + p mod 2 ^ b"
    by (rule mod_mult2_eq)
  have lt: "p mod 2 ^ b < 2 ^ b" by simp
  show ?thesis
  proof (cases "odd (p div 2 ^ b)")
    case True
    then have "p div 2 ^ b mod 2 = 1" by (simp add: odd_iff_mod_2_eq_one)
    with m have "p mod (2 * 2 ^ b) = 2 ^ b + p mod 2 ^ b" by (simp add: mult.commute)
    with True show ?thesis by (simp add: bit_iff_odd)
  next
    case False
    then have "p div 2 ^ b mod 2 = 0" by simp
    with m have "p mod (2 * 2 ^ b) = p mod 2 ^ b" by (simp add: mult.commute)
    with False lt show ?thesis by (simp add: bit_iff_odd)
  qed
qed

lemma lower_partner_div:
  fixes p h :: nat
  assumes "p mod (2 * h) < h"
  shows "(p + h) div (2 * h) = p div (2 * h)"
proof (rule div_nat_eqI)
  have p: "2 * h * (p div (2 * h)) + p mod (2 * h) = p" by (rule mult_div_mod_eq)
  show "2 * h * (p div (2 * h)) \<le> p + h" using p by linarith
  have "p + h < 2 * h * (p div (2 * h)) + 2 * h" using p assms by linarith
  then show "p + h < 2 * h * Suc (p div (2 * h))" by simp
qed

lemma upper_partner_div:
  fixes p h :: nat
  assumes "\<not> p mod (2 * h) < h"
  shows "(p - h) div (2 * h) = p div (2 * h)"
proof (cases "h = 0")
  case True
  then show ?thesis by simp
next
  case False
  show ?thesis
  proof (rule div_nat_eqI)
    have p: "2 * h * (p div (2 * h)) + p mod (2 * h) = p" by (rule mult_div_mod_eq)
    show "2 * h * (p div (2 * h)) \<le> p - h" using p assms by linarith
    have "p mod (2 * h) < 2 * h" using False by simp
    then have "p < 2 * h * (p div (2 * h)) + 2 * h" using p by linarith
    then show "p - h < 2 * h * Suc (p div (2 * h))" by simp
  qed
qed

lemma block_div:
  fixes x y :: nat
  assumes "b < s" and "x div (2 * 2 ^ b) = y div (2 * 2 ^ b)"
  shows "x div 2 ^ s = y div 2 ^ s"
proof -
  have "(2::nat) ^ s = 2 ^ (Suc b + (s - Suc b))" using assms(1) by simp
  also have "\<dots> = (2 * 2 ^ b) * 2 ^ (s - Suc b)" by (simp only: power_add power_Suc)
  finally have e: "(2::nat) ^ s = (2 * 2 ^ b) * 2 ^ (s - Suc b)" .
  have d: "z div 2 ^ s = z div (2 * 2 ^ b) div 2 ^ (s - Suc b)" for z :: nat
    by (subst e) (rule div_mult2_eq)
  show ?thesis by (simp only: d assms(2))
qed

lemma partner_div:
  fixes p :: nat
  shows "(p XOR 2 ^ b) div (2 * 2 ^ b) = p div (2 * 2 ^ b)"
proof (cases "p mod (2 * 2 ^ b) < 2 ^ b")
  case True
  then have "p XOR 2 ^ b = p + 2 ^ b" by (simp only: xor_pow2_nat bit_upper_half) simp
  then show ?thesis using lower_partner_div [OF True] by simp
next
  case False
  then have "p XOR 2 ^ b = p - 2 ^ b" by (simp only: xor_pow2_nat bit_upper_half) simp
  then show ?thesis using upper_partner_div [OF False] by simp
qed

subsection \<open>One pass on thresholded keys\<close>

text \<open>
  \<open>thr t xs\<close> marks the positions of \<open>xs\<close> whose key exceeds \<open>t\<close>.  A pass of the
  network acts on these marks as \<open>half_step\<close>: conjunction where the pass keeps the
  minimum, disjunction where it keeps the maximum.
\<close>

definition thr :: "'k::linorder \<Rightarrow> 'k list \<Rightarrow> nat \<Rightarrow> bool" where
  "thr t xs p = (p < length xs \<and> t < xs ! p)"

definition half_step :: "nat \<Rightarrow> nat \<Rightarrow> (nat \<Rightarrow> bool) \<Rightarrow> nat \<Rightarrow> bool" where
  "half_step s b g p =
     (let h = 2 ^ b;
          lower = p mod (2 * h) < h;
          q = (if lower then p + h else p - h)
      in if lower = even (p div 2 ^ s) then g p \<and> g q else g p \<or> g q)"

lemma pow2_block_ge:
  fixes p :: nat
  assumes "b < m" and "2 ^ m \<le> p"
  shows "2 ^ m \<le> 2 * 2 ^ b * (p div (2 * 2 ^ b))"
proof -
  have "(2::nat) ^ m = 2 ^ (Suc b + (m - Suc b))" using assms(1) by simp
  also have "\<dots> = (2 * 2 ^ b) * 2 ^ (m - Suc b)" by (simp only: power_add power_Suc)
  finally have e: "(2::nat) ^ m = (2 * 2 ^ b) * 2 ^ (m - Suc b)" .
  have "2 ^ (m - Suc b) = (2::nat) ^ m div (2 * 2 ^ b)" unfolding e by simp
  also have "\<dots> \<le> p div (2 * 2 ^ b)" using assms(2) by (rule div_le_mono)
  finally have "(2 * 2 ^ b) * 2 ^ (m - Suc b) \<le> (2 * 2 ^ b) * (p div (2 * 2 ^ b))"
    by (rule mult_le_mono2)
  then show ?thesis unfolding e .
qed

lemma thr_pass:
  fixes keys :: "('k::linorder) list"
  assumes n: "length keys = 2 ^ m" and bs: "b < s" and sm: "s \<le> m"
  shows "thr t (map (pass_key (2 ^ s) (2 ^ b) keys) [0..<2 ^ m]) = half_step s b (thr t keys)"
proof
  fix p :: nat
  let ?h = "(2::nat) ^ b"
  let ?q = "p XOR ?h"
  have bm: "b < m" using bs sm by simp
  have hm: "?h < 2 ^ m" using bm by simp
  have q: "?q = (if p mod (2 * ?h) < ?h then p + ?h else p - ?h)"
    by (simp only: xor_pow2_nat bit_upper_half) simp
  have hpos: "0 < ?h" by simp
  show "thr t (map (pass_key (2 ^ s) (2 ^ b) keys) [0..<2 ^ m]) p = half_step s b (thr t keys) p"
  proof (cases "p < 2 ^ m")
    case True
    have qn: "?q < 2 ^ m" using True hm by (rule xor_less_pow2)
    have lt: "(p < ?q) = (p mod (2 * ?h) < ?h)"
    proof (cases "p mod (2 * ?h) < ?h")
      case True
      then show ?thesis using q hpos by simp
    next
      case False
      then have "?q = p - ?h" using q by simp
      then have "?q \<le> p" by simp
      then show ?thesis using False by simp
    qed
    have "min p ?q div (2 * ?h) = p div (2 * ?h)"
      by (cases "p \<le> ?q") (simp_all add: min_def partner_div)
    then have dv: "min p ?q div 2 ^ s = p div 2 ^ s" by (rule block_div [OF bs])
    have dir: "(min p ?q AND 2 ^ s = 0) = even (p div 2 ^ s)"
      by (simp only: and_exp_eq_0_iff_not_bit bit_iff_odd dv) simp
    have L: "thr t (map (pass_key (2 ^ s) (2 ^ b) keys) [0..<2 ^ m]) p
        = (t < pass_key (2 ^ s) (2 ^ b) keys p)"
      using True by (simp add: thr_def)
    have R: "half_step s b (thr t keys) p
        = (if (p mod (2 * ?h) < ?h) = even (p div 2 ^ s)
           then t < keys ! p \<and> t < keys ! ?q else t < keys ! p \<or> t < keys ! ?q)"
      unfolding half_step_def Let_def q [symmetric] using True qn by (simp add: thr_def n)
    have P: "(t < pass_key (2 ^ s) (2 ^ b) keys p)
        = (if (p < ?q) = (min p ?q AND 2 ^ s = 0)
           then t < keys ! p \<and> t < keys ! ?q else t < keys ! p \<or> t < keys ! ?q)"
    proof (cases "(p < ?q) = (min p ?q AND 2 ^ s = 0)")
      case True
      have "pass_key (2 ^ s) (2 ^ b) keys p = min (keys ! p) (keys ! ?q)"
        unfolding pass_key_def Let_def using True by (rule if_P)
      moreover have "(if (p < ?q) = (min p ?q AND 2 ^ s = 0)
           then t < keys ! p \<and> t < keys ! ?q else t < keys ! p \<or> t < keys ! ?q)
          = (t < keys ! p \<and> t < keys ! ?q)"
        using True by (rule if_P)
      ultimately show ?thesis by (simp only: min_less_iff_conj)
    next
      case False
      have "pass_key (2 ^ s) (2 ^ b) keys p = max (keys ! p) (keys ! ?q)"
        unfolding pass_key_def Let_def using False by (rule if_not_P)
      moreover have "(if (p < ?q) = (min p ?q AND 2 ^ s = 0)
           then t < keys ! p \<and> t < keys ! ?q else t < keys ! p \<or> t < keys ! ?q)
          = (t < keys ! p \<or> t < keys ! ?q)"
        using False by (rule if_not_P)
      ultimately show ?thesis by (simp only: less_max_iff_disj)
    qed
    show ?thesis unfolding L R P lt dir ..
  next
    case False
    then have ge: "2 ^ m \<le> p" by simp
    have L: "\<not> thr t (map (pass_key (2 ^ s) (2 ^ b) keys) [0..<2 ^ m]) p"
      using False by (simp add: thr_def)
    have gp: "\<not> thr t keys p" using False by (simp add: thr_def n)
    have "2 ^ m \<le> ?q"
    proof (cases "p mod (2 * ?h) < ?h")
      case True
      then show ?thesis using q ge by simp
    next
      case False
      have p: "2 * ?h * (p div (2 * ?h)) + p mod (2 * ?h) = p" by (rule mult_div_mod_eq)
      have "2 ^ m \<le> 2 * ?h * (p div (2 * ?h))" using bm ge by (rule pow2_block_ge)
      also have "\<dots> \<le> p - ?h" using p False by linarith
      finally show ?thesis using q False by simp
    qed
    then have gq: "\<not> thr t keys ?q" by (simp add: thr_def n)
    have "\<not> half_step s b (thr t keys) p"
      unfolding half_step_def Let_def q [symmetric] using gp gq by simp
    with L show ?thesis by simp
  qed
qed

subsection \<open>The invariant of a merge stage\<close>

text \<open>
  During stage \<open>s\<close> (block size \<open>2 ^ s\<close>, ascending in even blocks, descending in odd
  ones), before the pass with partner distance \<open>z div 2\<close>: every aligned block of \<open>z\<close>
  marks is bitonic, and inside a \<open>2 ^ s\<close> block the \<open>z\<close> blocks are already in order
  against each other.
\<close>

definition blocks :: "(nat \<Rightarrow> bool) \<Rightarrow> nat \<Rightarrow> bool" where
  "blocks g z = (\<forall>c. shape (\<lambda>i. g (c * z + i)) z)"

definition ordered :: "(nat \<Rightarrow> bool) \<Rightarrow> nat \<Rightarrow> nat \<Rightarrow> bool" where
  "ordered g s z =
     (\<forall>p p'. p div 2 ^ s = p' div 2 ^ s \<and> p div z < p' div z
        \<longrightarrow> (if even (p div 2 ^ s) then g p \<longrightarrow> g p' else g p' \<longrightarrow> g p))"

lemma shape_cong:
  assumes "\<And>i. i < len \<Longrightarrow> u i = v i"
  shows "shape u len = shape v len"
  unfolding shape_def using assms by simp

lemma block_pos_div:
  fixes c i z :: nat
  assumes "i < z"
  shows "(c * z + i) div z = c" and "(c * z + i) mod z = i"
  using assms by simp_all

lemma half_step_lower:
  assumes i: "i < 2 ^ b" and bs: "b < s"
  shows "half_step s b g (c * (2 * 2 ^ b) + i)
       = (if even ((c * (2 * 2 ^ b)) div 2 ^ s)
          then g (c * (2 * 2 ^ b) + i) \<and> g (c * (2 * 2 ^ b) + (i + 2 ^ b))
          else g (c * (2 * 2 ^ b) + i) \<or> g (c * (2 * 2 ^ b) + (i + 2 ^ b)))"
proof -
  let ?z = "2 * (2::nat) ^ b"
  let ?p = "c * ?z + i"
  have iz: "i < ?z" using i by simp
  have m: "?p mod ?z = i" using iz by (rule block_pos_div)
  have "?p div ?z = (c * ?z) div ?z" using block_pos_div(1) [OF iz, of c] by simp
  then have d: "?p div 2 ^ s = (c * ?z) div 2 ^ s" by (rule block_div [OF bs])
  show ?thesis unfolding half_step_def Let_def m d using i by (simp add: add.assoc)
qed

lemma half_step_upper:
  assumes i: "i < 2 ^ b" and bs: "b < s"
  shows "half_step s b g (c * (2 * 2 ^ b) + (i + 2 ^ b))
       = (if even ((c * (2 * 2 ^ b)) div 2 ^ s)
          then g (c * (2 * 2 ^ b) + i) \<or> g (c * (2 * 2 ^ b) + (i + 2 ^ b))
          else g (c * (2 * 2 ^ b) + i) \<and> g (c * (2 * 2 ^ b) + (i + 2 ^ b)))"
proof -
  let ?z = "2 * (2::nat) ^ b"
  let ?p = "c * ?z + (i + 2 ^ b)"
  have iz: "i + 2 ^ b < ?z" using i by simp
  have m: "?p mod ?z = i + 2 ^ b" using iz by (rule block_pos_div)
  have "?p div ?z = (c * ?z) div ?z" using block_pos_div(1) [OF iz, of c] by simp
  then have d: "?p div 2 ^ s = (c * ?z) div 2 ^ s" by (rule block_div [OF bs])
  have sub: "?p - 2 ^ b = c * ?z + i" by simp
  have nl: "\<not> i + 2 ^ b < (2::nat) ^ b" by simp
  show ?thesis unfolding half_step_def Let_def m d sub using nl by auto
qed

lemma half_step_blocks:
  assumes bl: "blocks g (2 * 2 ^ b)" and bs: "b < s"
  shows "blocks (half_step s b g) (2 ^ b)"
  unfolding blocks_def
proof
  fix c' :: nat
  let ?h = "(2::nat) ^ b"
  define c where "c = c' div 2"
  define u where "u i = g (c * (2 * ?h) + i)" for i
  have su: "shape u (2 * ?h)" using bl unfolding blocks_def u_def by blast
  note hc = half_cleaner [OF su]
  show "shape (\<lambda>i. half_step s b g (c' * ?h + i)) ?h"
  proof (cases "even c'")
    case True
    then have c': "c' = 2 * c" by (simp add: c_def)
    have pos: "c' * ?h + i = c * (2 * ?h) + i" for i by (simp add: c')
    have "shape (\<lambda>i. half_step s b g (c' * ?h + i)) ?h
        = shape (\<lambda>i. if even ((c * (2 * ?h)) div 2 ^ s) then u i \<and> u (i + ?h) else u i \<or> u (i + ?h)) ?h"
      by (rule shape_cong) (simp only: pos half_step_lower [OF _ bs] u_def)
    also have "\<dots>" using hc(1,2) by (cases "even ((c * (2 * ?h)) div 2 ^ s)") simp_all
    finally show ?thesis .
  next
    case False
    then have c': "c' = 2 * c + 1" by (simp add: c_def)
    have pos: "c' * ?h + i = c * (2 * ?h) + (i + ?h)" for i by (simp add: c' algebra_simps)
    have "shape (\<lambda>i. half_step s b g (c' * ?h + i)) ?h
        = shape (\<lambda>i. if even ((c * (2 * ?h)) div 2 ^ s) then u i \<or> u (i + ?h) else u i \<and> u (i + ?h)) ?h"
      by (rule shape_cong) (simp only: pos half_step_upper [OF _ bs] u_def)
    also have "\<dots>" using hc(1,2) by (cases "even ((c * (2 * ?h)) div 2 ^ s)") simp_all
    finally show ?thesis .
  qed
qed

lemma div_half:
  fixes p h :: nat
  assumes h: "0 < h"
  shows "p div h = 2 * (p div (2 * h)) + (p mod (2 * h)) div h"
proof (rule div_nat_eqI)
  define c where "c = p div (2 * h)"
  define x where "x = p mod (2 * h)"
  define y where "y = x div h"
  have e: "2 * (h * c) + x = p"
    using mult_div_mod_eq [of "2 * h" p] by (simp add: c_def x_def mult.assoc)
  have y1: "h * y \<le> x" unfolding y_def by (rule times_div_less_eq_dividend)
  have y2: "x < h + h * y" unfolding y_def using h by (rule dividend_less_times_div)
  have "h * (2 * c + y) = 2 * (h * c) + h * y" by (simp add: algebra_simps)
  with e y1 have "h * (2 * c + y) \<le> p" by linarith
  then show "h * (2 * (p div (2 * h)) + p mod (2 * h) div h) \<le> p"
    unfolding c_def x_def y_def .
  have "h * Suc (2 * c + y) = 2 * (h * c) + h * y + h" by (simp add: algebra_simps)
  with e y2 have "p < h * Suc (2 * c + y)" by linarith
  then show "p < h * Suc (2 * (p div (2 * h)) + p mod (2 * h) div h)"
    unfolding c_def x_def y_def .
qed

lemma half_step_ordered:
  assumes bl: "blocks g (2 * 2 ^ b)" and od: "ordered g s (2 * 2 ^ b)" and bs: "b < s"
  shows "ordered (half_step s b g) s (2 ^ b)"
  unfolding ordered_def
proof (intro allI impI)
  fix p p' :: nat
  let ?h = "(2::nat) ^ b"
  let ?z = "2 * ?h"
  assume a: "p div 2 ^ s = p' div 2 ^ s \<and> p div ?h < p' div ?h"
  define q where "q = (if p mod ?z < ?h then p + ?h else p - ?h)"
  define q' where "q' = (if p' mod ?z < ?h then p' + ?h else p' - ?h)"
  have qd: "q div ?z = p div ?z"
    unfolding q_def using lower_partner_div [of p ?h] upper_partner_div [of p ?h] by simp
  have qd': "q' div ?z = p' div ?z"
    unfolding q'_def using lower_partner_div [of p' ?h] upper_partner_div [of p' ?h] by simp
  have hs: "half_step s b g p
      = (if (p mod ?z < ?h) = even (p div 2 ^ s) then g p \<and> g q else g p \<or> g q)"
    unfolding half_step_def Let_def q_def ..
  have hs': "half_step s b g p'
      = (if (p' mod ?z < ?h) = even (p' div 2 ^ s) then g p' \<and> g q' else g p' \<or> g q')"
    unfolding half_step_def Let_def q'_def ..
  have up: "half_step s b g p \<Longrightarrow> g p \<or> g q" unfolding hs by (simp split: if_splits)
  have lo: "g p \<and> g q \<Longrightarrow> half_step s b g p" unfolding hs by (simp split: if_splits)
  have up': "half_step s b g p' \<Longrightarrow> g p' \<or> g q'" unfolding hs' by (simp split: if_splits)
  have lo': "g p' \<and> g q' \<Longrightarrow> half_step s b g p'" unfolding hs' by (simp split: if_splits)
  have "p div ?h div 2 \<le> p' div ?h div 2" using a by (simp add: div_le_mono)
  moreover have "x div ?z = x div ?h div 2" for x :: nat
    by (subst mult.commute) (rule div_mult2_eq)
  ultimately have le: "p div ?z \<le> p' div ?z" by simp
  show "if even (p div 2 ^ s) then half_step s b g p \<longrightarrow> half_step s b g p'
        else half_step s b g p' \<longrightarrow> half_step s b g p"
  proof (cases "p div ?z < p' div ?z")
    case True
    have rel: "if even (p div 2 ^ s) then g x \<longrightarrow> g x' else g x' \<longrightarrow> g x"
      if x: "x div ?z = p div ?z" and x': "x' div ?z = p' div ?z" for x x'
    proof -
      have 1: "x div 2 ^ s = p div 2 ^ s" using bs x by (rule block_div)
      have 2: "x' div 2 ^ s = p' div 2 ^ s" using bs x' by (rule block_div)
      have "x div 2 ^ s = x' div 2 ^ s \<and> x div ?z < x' div ?z" using 1 2 a x x' True by simp
      with od have "if even (x div 2 ^ s) then g x \<longrightarrow> g x' else g x' \<longrightarrow> g x"
        unfolding ordered_def by blast
      then show ?thesis unfolding 1 .
    qed
    note r = rel [OF refl refl] rel [OF refl qd'] rel [OF qd refl] rel [OF qd qd']
    show ?thesis
    proof (cases "even (p div 2 ^ s)")
      case True
      then have "g x \<longrightarrow> g x'" if "x div ?z = p div ?z" "x' div ?z = p' div ?z" for x x'
        using rel [OF that] by simp
      then have "g p \<or> g q \<longrightarrow> g p' \<and> g q'" using qd qd' by blast
      then show ?thesis using True up lo' by auto
    next
      case False
      then have "g x' \<longrightarrow> g x" if "x div ?z = p div ?z" "x' div ?z = p' div ?z" for x x'
        using rel [OF that] by simp
      then have "g p' \<or> g q' \<longrightarrow> g p \<and> g q" using qd qd' by blast
      then show ?thesis using False up' lo by auto
    qed
  next
    case False
    with le have eq: "p div ?z = p' div ?z" by simp
    define c where "c = p div ?z"
    have hpos: "0 < ?h" by simp
    have "p mod ?z div ?h < p' mod ?z div ?h"
      using a div_half [OF hpos, of p] div_half [OF hpos, of p'] eq by simp
    moreover have "p' mod ?z div ?h < 2"
      by (rule less_mult_imp_div_less) simp
    ultimately have d0: "p mod ?z div ?h = 0" and d1: "p' mod ?z div ?h \<noteq> 0" by simp_all
    from d0 have lw: "p mod ?z < ?h" by (simp add: div_eq_0_iff)
    from d1 have uw: "\<not> p' mod ?z < ?h" by (simp add: div_eq_0_iff)
    define i where "i = p mod ?z"
    define i' where "i' = p' mod ?z - ?h"
    have i: "i < ?h" using lw by (simp add: i_def)
    have "p' mod ?z < ?z" by simp
    then have i': "i' < ?h" unfolding i'_def by linarith
    have p: "p = c * ?z + i"
      unfolding c_def i_def using div_mult_mod_eq [of p ?z] by simp
    have "p' = c * ?z + p' mod ?z"
      unfolding c_def eq using div_mult_mod_eq [of p' ?z] by simp
    moreover have "p' mod ?z = i' + ?h" unfolding i'_def using uw by simp
    ultimately have p': "p' = c * ?z + (i' + ?h)" by simp
    define u where "u k = g (c * ?z + k)" for k
    have su: "shape u (2 * ?h)" using bl unfolding blocks_def u_def by blast
    from half_cleaner(3) [OF su] i i'
    have hc: "(u i \<and> u (i + ?h) \<longrightarrow> u i' \<or> u (i' + ?h))"
      and hc': "(u i' \<and> u (i' + ?h) \<longrightarrow> u i \<or> u (i + ?h))" by blast+
    have dv: "p div 2 ^ s = (c * ?z) div 2 ^ s"
    proof (rule block_div [OF bs])
      show "p div ?z = c * ?z div ?z" by (simp add: c_def)
    qed
    have A: "half_step s b g p
        = (if even (p div 2 ^ s) then u i \<and> u (i + ?h) else u i \<or> u (i + ?h))"
      unfolding p half_step_lower [OF i bs] u_def dv [unfolded p] ..
    have B: "half_step s b g p'
        = (if even (p div 2 ^ s) then u i' \<or> u (i' + ?h) else u i' \<and> u (i' + ?h))"
      unfolding p' half_step_upper [OF i' bs] u_def dv ..
    show ?thesis unfolding A B using hc hc' by simp
  qed
qed

subsection \<open>Stages and the whole network\<close>

lemma mono_threshold:
  fixes n :: nat
  shows "(\<forall>i i'. i < i' \<and> i' < n \<longrightarrow> u i \<longrightarrow> u i') \<Longrightarrow> \<exists>a\<le>n. \<forall>i<n. u i = (a \<le> i)"
proof (induction n)
  case 0
  then show ?case by simp
next
  case (Suc n)
  then obtain a where a: "a \<le> n" "\<forall>i<n. u i = (a \<le> i)" by force
  show ?case
  proof (cases "u n")
    case True
    have "\<forall>i<Suc n. u i = (a \<le> i)" using a True by (auto simp: less_Suc_eq)
    then show ?thesis using a(1) by (intro exI [of _ a]) simp
  next
    case False
    have "\<not> u i" if "i < n" for i using Suc.prems that False by blast
    then have "\<forall>i<Suc n. u i = (Suc n \<le> i)" using False by (auto simp: less_Suc_eq)
    then show ?thesis by (intro exI [of _ "Suc n"]) simp
  qed
qed

lemma anti_threshold:
  fixes n :: nat
  assumes "\<forall>i i'. i < i' \<and> i' < n \<longrightarrow> u i' \<longrightarrow> u i"
  shows "\<exists>e\<le>n. \<forall>i<n. u i = (i < e)"
proof -
  have "\<forall>i i'. i < i' \<and> i' < n \<longrightarrow> \<not> u i \<longrightarrow> \<not> u i'" using assms by blast
  from mono_threshold [of n "\<lambda>i. \<not> u i", OF this]
  obtain a where "a \<le> n" "\<forall>i<n. (\<not> u i) = (a \<le> i)" by blast
  then have "a \<le> n \<and> (\<forall>i<n. u i = (i < a))" by (metis not_le)
  then show ?thesis by blast
qed

lemma stage_start_ordered: "ordered g (Suc s) (2 * 2 ^ s)"
  unfolding ordered_def by auto

lemma stage_start_blocks:
  assumes od: "ordered g s 1"
  shows "blocks g (2 * 2 ^ s)"
  unfolding blocks_def
proof
  fix c :: nat
  let ?H = "(2::nat) ^ s"
  define u where "u i = g (c * (2 * ?H) + i)" for i
  have od': "if even (p div ?H) then g p \<longrightarrow> g p' else g p' \<longrightarrow> g p"
    if "p div ?H = p' div ?H" "p < p'" for p p'
    using od that unfolding ordered_def by simp
  have dlo: "(c * (2 * ?H) + i) div ?H = 2 * c" if "i < ?H" for i
  proof -
    have e: "c * (2 * ?H) + i = (2 * c) * ?H + i" by simp
    show ?thesis unfolding e by (rule block_pos_div(1) [OF that])
  qed
  have dhi: "(c * (2 * ?H) + (?H + i)) div ?H = 2 * c + 1" if "i < ?H" for i
  proof -
    have e: "c * (2 * ?H) + (?H + i) = (2 * c + 1) * ?H + i" by (simp add: algebra_simps)
    show ?thesis unfolding e by (rule block_pos_div(1) [OF that])
  qed
  have "\<forall>i i'. i < i' \<and> i' < ?H \<longrightarrow> u i \<longrightarrow> u i'"
  proof (intro allI impI)
    fix i i' assume a: "i < i' \<and> i' < ?H" and ui: "u i"
    then have i: "i < ?H" and i': "i' < ?H" by simp_all
    have "if even ((c * (2 * ?H) + i) div ?H) then g (c * (2 * ?H) + i) \<longrightarrow> g (c * (2 * ?H) + i')
          else g (c * (2 * ?H) + i') \<longrightarrow> g (c * (2 * ?H) + i)"
      by (rule od') (use a in \<open>simp_all add: dlo [OF i] dlo [OF i']\<close>)
    then show "u i'" using ui by (simp add: dlo [OF i] u_def)
  qed
  from mono_threshold [OF this] obtain a where a: "a \<le> ?H" "\<forall>i<?H. u i = (a \<le> i)" by blast
  have "\<forall>i i'. i < i' \<and> i' < ?H \<longrightarrow> u (?H + i') \<longrightarrow> u (?H + i)"
  proof (intro allI impI)
    fix i i' assume b: "i < i' \<and> i' < ?H" and ui: "u (?H + i')"
    then have i: "i < ?H" and i': "i' < ?H" by simp_all
    have "if even ((c * (2 * ?H) + (?H + i)) div ?H)
          then g (c * (2 * ?H) + (?H + i)) \<longrightarrow> g (c * (2 * ?H) + (?H + i'))
          else g (c * (2 * ?H) + (?H + i')) \<longrightarrow> g (c * (2 * ?H) + (?H + i))"
      by (rule od') (use b in \<open>simp_all add: dhi [OF i] dhi [OF i']\<close>)
    then show "u (?H + i)" using ui by (simp add: dhi [OF i] u_def)
  qed
  from anti_threshold [OF this] obtain e where e: "e \<le> ?H" "\<forall>i<?H. u (?H + i) = (i < e)"
    by blast
  have "\<forall>i<2 * ?H. u i = (a \<le> i \<and> i < ?H + e)"
  proof (intro allI impI)
    fix i assume i: "i < 2 * ?H"
    show "u i = (a \<le> i \<and> i < ?H + e)"
    proof (cases "i < ?H")
      case True
      then show ?thesis using a by simp
    next
      case False
      then have "i = ?H + (i - ?H)" "i - ?H < ?H" using i by simp_all
      then have "u i = (i - ?H < e)" using e(2) by metis
      then show ?thesis using False a(1) by auto
    qed
  qed
  then have "shape u (2 * ?H)" using a(1) e(1) by (intro shape_ones [of a "?H + e"]) simp_all
  then show "shape (\<lambda>i. g (c * (2 * ?H) + i)) (2 * ?H)" by (simp add: u_def [abs_def])
qed

lemma pass_thr:
  fixes keys :: "('k::linorder) list"
  assumes n: "length keys = 2 ^ m" and bs: "b < s" and sm: "s \<le> m"
  shows "thr t (fst (i_loop (2 ^ m) (2 ^ s) (2 ^ b) (keys, ids))) = half_step s b (thr t keys)"
    and "length (fst (i_loop (2 ^ m) (2 ^ s) (2 ^ b) (keys, ids))) = 2 ^ m"
proof -
  have bm: "(2::nat) ^ b < 2 ^ m" using bs sm by simp
  have bound: "p XOR 2 ^ b < 2 ^ m" if "p < 2 ^ m" for p :: nat
    using that bm by (rule xor_less_pow2)
  have k: "fst (i_loop (2 ^ m) (2 ^ s) (2 ^ b) (keys, ids))
      = map (pass_key (2 ^ s) (2 ^ b) keys) [0..<2 ^ m]"
    by (rule i_loop_keys [OF n _ bound]) simp_all
  show "thr t (fst (i_loop (2 ^ m) (2 ^ s) (2 ^ b) (keys, ids))) = half_step s b (thr t keys)"
    unfolding k by (rule thr_pass [OF n bs sm])
  show "length (fst (i_loop (2 ^ m) (2 ^ s) (2 ^ b) (keys, ids))) = 2 ^ m"
    unfolding k by simp
qed

lemma j_loop_sorted:
  fixes keys :: "('k::linorder) list"
  assumes "length keys = 2 ^ m" and "b < s" and "s \<le> m"
    and "blocks (thr t keys) (2 * 2 ^ b)" and "ordered (thr t keys) s (2 * 2 ^ b)"
  shows "ordered (thr t (fst (j_loop (2 ^ m) (2 ^ s) (2 ^ b) (keys, ids)))) s 1
       \<and> length (fst (j_loop (2 ^ m) (2 ^ s) (2 ^ b) (keys, ids))) = 2 ^ m"
  using assms
proof (induction b arbitrary: keys ids)
  case 0
  obtain keys' ids' where st: "i_loop (2 ^ m) (2 ^ s) (2 ^ 0) (keys, ids) = (keys', ids')"
    by (cases "i_loop (2 ^ m) (2 ^ s) (2 ^ 0) (keys, ids)")
  have th: "thr t keys' = half_step s 0 (thr t keys)" and len: "length keys' = 2 ^ m"
    using pass_thr(1) [OF "0.prems"(1,2,3), where t = t and ids = ids]
      pass_thr(2) [OF "0.prems"(1,2,3), where ids = ids] by (simp_all only: st fst_conv)
  have od: "ordered (thr t keys') s (2 ^ 0)"
    unfolding th by (rule half_step_ordered [OF "0.prems"(4,5,2)])
  have stop: "j_loop (2 ^ m) (2 ^ s) 0 (keys', ids') = (keys', ids')"
    by (subst j_loop.simps) simp
  have "j_loop (2 ^ m) (2 ^ s) (2 ^ 0) (keys, ids) = j_loop (2 ^ m) (2 ^ s) 0 (keys', ids')"
    by (subst j_loop.simps) (simp add: st [simplified])
  then show ?case using od len by (simp add: stop)
next
  case (Suc b)
  obtain keys' ids' where st: "i_loop (2 ^ m) (2 ^ s) (2 ^ Suc b) (keys, ids) = (keys', ids')"
    by (cases "i_loop (2 ^ m) (2 ^ s) (2 ^ Suc b) (keys, ids)")
  have th: "thr t keys' = half_step s (Suc b) (thr t keys)" and len: "length keys' = 2 ^ m"
    using pass_thr(1) [OF Suc.prems(1,2,3), where t = t and ids = ids]
      pass_thr(2) [OF Suc.prems(1,2,3), where ids = ids] by (simp_all only: st fst_conv)
  have od: "ordered (thr t keys') s (2 * 2 ^ b)"
    using half_step_ordered [OF Suc.prems(4,5,2)] by (simp add: th)
  have bl: "blocks (thr t keys') (2 * 2 ^ b)"
    using half_step_blocks [OF Suc.prems(4,2)] by (simp add: th)
  have bs: "b < s" using Suc.prems(2) by simp
  have "drop_bit 1 ((2::nat) ^ Suc b) = 2 ^ b" by (simp add: drop_bit_eq_div)
  then have "j_loop (2 ^ m) (2 ^ s) (2 ^ Suc b) (keys, ids)
      = j_loop (2 ^ m) (2 ^ s) (2 ^ b) (keys', ids')"
    by (subst j_loop.simps) (simp only: st zero_less_power zero_less_numeral if_True)
  then show ?case using Suc.IH [OF len bs Suc.prems(3) bl od, of ids'] by simp
qed

lemma k_loop_sorted:
  fixes keys :: "('k::linorder) list"
  assumes "d = Suc m - s" and "length keys = 2 ^ m" and "0 < s" and "s \<le> Suc m"
    and "ordered (thr t keys) (s - 1) 1"
  shows "ordered (thr t (fst (k_loop (2 ^ m) (2 ^ s) (keys, ids)))) m 1"
  using assms
proof (induction d arbitrary: s keys ids)
  case 0
  then have s: "s = Suc m" by simp
  have "\<not> (2::nat) ^ Suc m \<le> 2 ^ m" by simp
  then have "k_loop (2 ^ m) (2 ^ s) (keys, ids) = (keys, ids)"
    unfolding s by (subst k_loop.simps) simp
  then show ?case using "0.prems"(5) by (simp add: s)
next
  case (Suc d)
  then obtain s' where s: "s = Suc s'" by (cases s) simp_all
  have sm: "s \<le> m" using Suc.prems(1) by simp
  have od0: "ordered (thr t keys) s' 1" using Suc.prems(5) by (simp add: s)
  have bl: "blocks (thr t keys) (2 * 2 ^ s')" using od0 by (rule stage_start_blocks)
  have od: "ordered (thr t keys) s (2 * 2 ^ s')" unfolding s by (rule stage_start_ordered)
  have s's: "s' < s" by (simp add: s)
  obtain keys' ids' where st: "j_loop (2 ^ m) (2 ^ s) (2 ^ s') (keys, ids) = (keys', ids')"
    by (cases "j_loop (2 ^ m) (2 ^ s) (2 ^ s') (keys, ids)")
  have r: "ordered (thr t keys') s 1" and len: "length keys' = 2 ^ m"
    using j_loop_sorted [OF Suc.prems(2) s's sm bl od, of ids] by (simp_all only: st fst_conv)
  have le: "(2::nat) ^ s \<le> 2 ^ m" using sm by simp
  have db: "drop_bit 1 ((2::nat) ^ s) = 2 ^ s'" by (simp add: s drop_bit_eq_div)
  have pb: "push_bit 1 ((2::nat) ^ s) = 2 ^ Suc s" by (simp add: push_bit_eq_mult)
  have "k_loop (2 ^ m) (2 ^ s) (keys, ids) = k_loop (2 ^ m) (2 ^ Suc s) (keys', ids')"
    by (subst k_loop.simps) (simp only: le db pb st zero_less_power zero_less_numeral simp_thms if_True)
  moreover have "ordered (thr t (fst (k_loop (2 ^ m) (2 ^ Suc s) (keys', ids')))) m 1"
  proof (rule Suc.IH [OF _ len])
    show "d = Suc m - Suc s" using Suc.prems(1) by simp
    show "0 < Suc s" by simp
    show "Suc s \<le> Suc m" using sm by simp
    show "ordered (thr t keys') (Suc s - 1) 1" using r by simp
  qed
  ultimately show ?case by simp
qed

lemma bitonic_sort_sorted:
  fixes keys :: "('k::linorder) list"
  assumes n: "length keys = 2 ^ m"
  shows "sorted (fst (bitonic_sort (2 ^ m) keys))"
proof -
  let ?xs = "fst (bitonic_sort (2 ^ m) keys)"
  have len: "length ?xs = 2 ^ m"
    using bitonic_sort_inv [OF refl n] by (auto simp: sort_inv_def split: prod.splits)
  have od: "ordered (thr t ?xs) m 1" for t
    unfolding bitonic_sort_def
  proof (rule k_loop_sorted [where s = 1 and keys = keys, simplified power_one_right])
    show "Suc m - 1 = Suc m - 1" ..
    show "length keys = 2 ^ m" by (rule n)
    show "0 < (1::nat)" by simp
    show "1 \<le> Suc m" by simp
    show "ordered (thr t keys) (1 - 1) 1" unfolding ordered_def by simp
  qed
  show ?thesis
    unfolding sorted_iff_nth_mono_less
  proof (intro allI impI)
    fix i j assume ij: "i < j" and j: "j < length ?xs"
    have dv: "i div 2 ^ m = 0" "j div 2 ^ m = 0" using ij j len by simp_all
    have "i div 2 ^ m = j div 2 ^ m \<and> i div 1 < j div 1" using ij dv by simp
    with od [of "?xs ! j", unfolded ordered_def, rule_format, of i j]
    have "thr (?xs ! j) ?xs i \<longrightarrow> thr (?xs ! j) ?xs j" by (simp add: dv)
    then show "?xs ! i \<le> ?xs ! j" using ij j by (simp add: thr_def not_less [symmetric])
  qed
qed

subsection \<open>The network on equal keys\<close>

text \<open>
  When all keys of a chunk are equal, \<open>keys[i] > keys[l]\<close> is false, so the pair
  \<open>(i, l)\<close> is exchanged exactly when \<open>dir\<close> is false, that is when \<open>i & k\<close> is not zero.
  \<open>const_src k j p\<close> is the position whose index the pass moves to position \<open>p\<close>.
\<close>

definition const_src :: "nat \<Rightarrow> nat \<Rightarrow> nat \<Rightarrow> nat" where
  "const_src k j p = (let q = p XOR j in if min p q AND k = 0 then p else q)"

definition const_exchange :: "nat \<Rightarrow> nat \<Rightarrow> nat \<Rightarrow> nat list \<Rightarrow> nat list" where
  "const_exchange k j i ids =
     (let l = i XOR j in if l > i \<and> i AND k \<noteq> 0 then ids[i := ids ! l, l := ids ! i] else ids)"

definition const_pass :: "nat \<Rightarrow> nat \<Rightarrow> nat \<Rightarrow> nat list \<Rightarrow> nat list" where
  "const_pass n k j ids = map (\<lambda>p. ids ! const_src k j p) [0..<n]"

lemma compare_exchange_const:
  assumes "i < n" "i XOR j < n"
  shows "compare_exchange k j i (replicate n c, ids) = (replicate n c, const_exchange k j i ids)"
proof -
  have "(replicate n c)[i := c, i XOR j := c] = replicate n c"
    by (rule nth_equalityI) (use assms in \<open>simp_all add: nth_list_update\<close>)
  then show ?thesis
    using assms by (simp add: compare_exchange_def const_exchange_def Let_def)
qed

lemma fold_compare_exchange_const:
  assumes "\<forall>i \<in> set is. i < n \<and> i XOR j < n"
  shows "fold (compare_exchange k j) is (replicate n c, ids)
       = (replicate n c, fold (const_exchange k j) is ids)"
  using assms
proof (induction "is" arbitrary: ids)
  case Nil
  show ?case by simp
next
  case (Cons i "is")
  then show ?case by (simp add: compare_exchange_const)
qed

lemma const_prefix:
  assumes n: "length ids = n" and j: "0 < j" and bound: "\<And>p. p < n \<Longrightarrow> p XOR j < n"
    and t: "t \<le> n"
  shows "fold (const_exchange k j) [0..<t] ids
       = map (\<lambda>p. if min p (p XOR j) < t then ids ! const_src k j p else ids ! p) [0..<n]"
  using t
proof (induction t)
  case 0
  have "map (\<lambda>p. ids ! p) [0..<length ids] = ids" by (rule map_nth)
  then show ?case by (simp add: n)
next
  case (Suc t)
  let ?cur = "map (\<lambda>p. if min p (p XOR j) < t then ids ! const_src k j p else ids ! p) [0..<n]"
  let ?new = "map (\<lambda>p. if min p (p XOR j) < Suc t then ids ! const_src k j p else ids ! p) [0..<n]"
  define l where "l = t XOR j"
  have tn: "t < n" using Suc.prems by simp
  have ln: "l < n" unfolding l_def using bound tn by simp
  have lt: "l \<noteq> t" unfolding l_def using xor_neq [OF j] by simp
  have lj: "l XOR j = t" unfolding l_def by (rule xor_xor_same)
  have prev: "fold (const_exchange k j) [0..<t] ids = ?cur" using Suc by simp
  have step: "const_exchange k j t ?cur = ?new"
  proof (cases "l > t")
    case True
    have ct: "?cur ! t = ids ! t" using tn True by (simp add: l_def [symmetric])
    have cl: "?cur ! l = ids ! l" using ln True lj by simp
    have mt: "min t l = t" "min l t = t" using True by simp_all
    show ?thesis
    proof (rule nth_equalityI)
      show "length (const_exchange k j t ?cur) = length ?new"
        by (simp add: const_exchange_def Let_def)
    next
      fix p assume "p < length (const_exchange k j t ?cur)"
      then have pn: "p < n" by (simp add: const_exchange_def Let_def split: if_splits)
      consider "p = t" | "p = l" | "p \<noteq> t" "p \<noteq> l" by blast
      then show "const_exchange k j t ?cur ! p = ?new ! p"
      proof cases
        case 1
        then show ?thesis
          using True tn ln lt ct cl mt
          by (auto simp: const_exchange_def Let_def l_def [symmetric] const_src_def nth_list_update)
      next
        case 2
        then show ?thesis
          using True tn ln lt ct cl lj mt
          by (auto simp: const_exchange_def Let_def l_def [symmetric] const_src_def nth_list_update)
      next
        case 3
        have "p XOR j \<noteq> t" using 3(2) xor_xor_same [of p j] by (auto simp: l_def)
        then have m: "min p (p XOR j) \<noteq> t" using 3(1) by (simp add: min_def)
        then have "(min p (p XOR j) < Suc t) = (min p (p XOR j) < t)" by linarith
        then show ?thesis
          using 3 pn tn ln
          by (simp add: const_exchange_def Let_def l_def [symmetric] nth_list_update)
      qed
    qed
  next
    case False
    then have lt': "l < t" using lt by simp
    have "min p (p XOR j) \<noteq> t" for p
    proof (cases "p = t")
      case True
      then show ?thesis using lt' by (simp add: l_def [symmetric])
    next
      case pt: False
      show ?thesis
      proof (cases "p XOR j = t")
        case True
        then have "p = l" using xor_xor_same [of p j] by (simp add: l_def)
        then show ?thesis using lt' lj by simp
      next
        case False
        then show ?thesis using pt by (simp add: min_def)
      qed
    qed
    then have "(min p (p XOR j) < Suc t) = (min p (p XOR j) < t)" for p
      by (metis less_Suc_eq)
    then show ?thesis
      using False by (simp add: const_exchange_def Let_def l_def [symmetric])
  qed
  show ?case by (simp add: prev step)
qed

lemma i_loop_const:
  assumes n: "length ids = n" and j: "0 < j" and bound: "\<And>p. p < n \<Longrightarrow> p XOR j < n"
  shows "i_loop n k j (replicate n c, ids) = (replicate n c, const_pass n k j ids)"
proof -
  have "min p (p XOR j) < n" if "p < n" for p using that by (simp add: min_def)
  then have "map (\<lambda>p. if min p (p XOR j) < n then ids ! const_src k j p else ids ! p) [0..<n]
           = const_pass n k j ids"
    by (simp add: const_pass_def)
  moreover have "\<forall>i \<in> set [0..<n]. i < n \<and> i XOR j < n" using bound by simp
  ultimately show ?thesis
    unfolding i_loop_def
    using const_prefix [OF n j bound order_refl, of k]
    by (simp add: fold_compare_exchange_const)
qed

lemma length_const_pass: "length (const_pass n k j ids) = n"
  by (simp add: const_pass_def)

lemma const_pass_nth: "p < n \<Longrightarrow> const_pass n k j ids ! p = ids ! const_src k j p"
  by (simp add: const_pass_def)

lemma i_loop_const_128:
  assumes "length ids = 128" and "j = 1 \<or> j = 2 \<or> j = 4 \<or> j = 8 \<or> j = 16 \<or> j = 32 \<or> j = 64"
  shows "i_loop 128 k j (replicate 128 c, ids) = (replicate 128 c, const_pass 128 k j ids)"
proof (rule i_loop_const [OF assms(1)])
  show "0 < j" using assms(2) by auto
  have j: "j < 2 ^ 7" using assms(2) by auto
  fix p :: nat assume "p < 128"
  then have "p < 2 ^ 7" by simp
  then have "p XOR j < 2 ^ 7" using j by (rule xor_less_pow2)
  then show "p XOR j < 128" by simp
qed

lemma bitonic_sort_const_128:
  "snd (bitonic_sort 128 (replicate 128 c)) ! 2 = 3 \<and> snd (bitonic_sort 128 (replicate 128 c)) ! 3 = 2"
  unfolding bitonic_sort_def
  by (simp add: k_loop.simps j_loop.simps i_loop_const_128 length_const_pass const_pass_nth
      const_src_def Let_def)

subsection \<open>The indices the encoder emits\<close>

text \<open>
  Reading the atlas texel back the way the reshuffle shader does: local index \<open>l\<close> is
  byte \<open>l & 3\<close> of word \<open>l >> 2\<close>.
\<close>

definition emitted_index :: "32 word list \<Rightarrow> nat \<Rightarrow> nat" where
  "emitted_index ws l = unat (drop_bit ((l mod 4) * 8) (ws ! (l div 4)) AND 0xFF)"

definition emitted_ids :: "32 word list \<Rightarrow> nat list" where
  "emitted_ids ws = map (emitted_index ws) [0..<128]"

lemma emitted_ids_packed:
  assumes len: "length ids = 128" and small: "\<forall>x \<in> set ids. x < 256"
  shows "emitted_ids (map (packed_word ids) [0..<32]) = ids"
proof (rule nth_equalityI)
  show "length (emitted_ids (map (packed_word ids) [0..<32])) = length ids"
    by (simp add: emitted_ids_def len)
next
  fix l assume "l < length (emitted_ids (map (packed_word ids) [0..<32]))"
  then have l: "l < 128" by (simp add: emitted_ids_def)
  then have q: "l div 4 < 32" by simp
  have r: "l mod 4 < 4" by simp
  have "ids ! l \<in> set ids" using l len by simp
  then have b: "unat ((of_nat (ids ! l) :: 32 word) AND 0xFF) = ids ! l"
    using small by (intro unat_byte) blast
  have "emitted_ids (map (packed_word ids) [0..<32]) ! l
      = unat (drop_bit ((l mod 4) * 8) (packed_word ids (l div 4)) AND 0xFF)"
    using l q by (simp add: emitted_ids_def emitted_index_def)
  also have "\<dots> = unat ((of_nat (ids ! (l div 4 * 4 + l mod 4)) :: 32 word) AND 0xFF)"
    by (simp only: unpack_packed_word [OF r])
  also have "\<dots> = ids ! l" using b by simp
  finally show "emitted_ids (map (packed_word ids) [0..<32]) ! l = ids ! l" .
qed

lemma encoder_ids:
  "emitted_ids (KSortEncoder_main 128 data_w enc_w n offs texPos (x, y))
     = snd (bitonic_sort 128 (chunk_keys 128 n data_w texPos (int ((y * enc_w + x) * 128 + offs))))"
proof -
  let ?keys = "chunk_keys 128 n data_w texPos (int ((y * enc_w + x) * 128 + offs))"
  let ?ids = "snd (bitonic_sort 128 ?keys)"
  have c: "(128::nat) = 2 ^ 7" by simp
  have lk: "length ?keys = 128" by (simp add: chunk_keys_def)
  note p = bitonic_sort_ids_perm [OF c lk]
  have "set ?ids = set [0..<128]" using p(1) by (rule mset_eq_setD)
  then have small: "\<forall>x \<in> set ?ids. x < 256" by auto
  show ?thesis
    using emitted_ids_packed [OF p(2) small] by (simp add: KSortEncoder_main_def Let_def)
qed

lemma downward_closed_prefix:
  fixes B :: "nat set"
  assumes fin: "finite B" and dc: "\<And>p q. p \<in> B \<Longrightarrow> q < p \<Longrightarrow> q \<in> B"
  shows "B = {0..<card B}"
proof (rule card_subset_eq)
  show "finite {0..<card B}" by simp
  show "B \<subseteq> {0..<card B}"
  proof
    fix p assume p: "p \<in> B"
    have "{0..p} \<subseteq> B"
    proof
      fix q assume "q \<in> {0..p}"
      then have "q = p \<or> q < p" by auto
      then show "q \<in> B" using p dc by blast
    qed
    then have "card {0..p} \<le> card B" using fin by (rule card_mono [rotated])
    then show "p \<in> {0..<card B}" by simp
  qed
  show "card B = card {0..<card B}" by simp
qed

lemma sentinels_high:
  fixes keys :: "('k::linorder) list"
  assumes perm: "mset ids = mset [0..<N]"
    and srt: "sorted (map (\<lambda>l. keys ! l) ids)"
    and lo: "\<And>l. l < N \<Longrightarrow> l < r \<Longrightarrow> keys ! l < S"
    and hi: "\<And>l. l < N \<Longrightarrow> \<not> l < r \<Longrightarrow> keys ! l = S"
    and r: "r \<le> N"
    and p: "p < N"
  shows "(ids ! p < r) = (p < r)"
proof -
  define B where "B = {p. p < N \<and> ids ! p < r}"
  have len: "length ids = N" using perm mset_eq_length by fastforce
  have st: "set ids = {0..<N}" using mset_eq_setD [OF perm] by simp
  have "distinct ids = distinct [0..<N]" using perm by (rule mset_eq_imp_distinct_iff)
  then have dist: "distinct ids" by simp
  have fin: "finite B" unfolding B_def by simp
  have inj: "inj_on (nth ids) B"
    by (rule inj_on_nth [OF dist]) (simp add: B_def len)
  have img: "nth ids ` B = {0..<r}"
  proof
    show "nth ids ` B \<subseteq> {0..<r}" by (auto simp: B_def)
    show "{0..<r} \<subseteq> nth ids ` B"
    proof
      fix l assume "l \<in> {0..<r}"
      then have l: "l < r" by simp
      then have "l \<in> set ids" using st r by simp
      then obtain q where "q < length ids" "ids ! q = l" by (auto simp: in_set_conv_nth)
      then have "q \<in> B" using l by (simp add: B_def len)
      then show "l \<in> nth ids ` B" using \<open>ids ! q = l\<close> by blast
    qed
  qed
  have card: "card B = r" using card_image [OF inj] img by simp
  have dc: "q \<in> B" if "p' \<in> B" "q < p'" for p' q
  proof -
    from that have p': "p' < N" "ids ! p' < r" by (simp_all add: B_def)
    have q: "q < N" using that(2) p'(1) by simp
    have "ids ! p' \<in> set ids" "ids ! q \<in> set ids" using p'(1) q len by simp_all
    then have in': "ids ! p' < N" and inq: "ids ! q < N" using st by simp_all
    have "map (\<lambda>l. keys ! l) ids ! q \<le> map (\<lambda>l. keys ! l) ids ! p'"
      using srt that(2) p'(1) len by (simp add: sorted_iff_nth_mono_less)
    then have le: "keys ! (ids ! q) \<le> keys ! (ids ! p')" using q p'(1) len by simp
    have "keys ! (ids ! p') < S" using lo [OF in' p'(2)] .
    with le have "keys ! (ids ! q) \<noteq> S" by simp
    then have "ids ! q < r" using hi [OF inq] by blast
    then show ?thesis using q by (simp add: B_def)
  qed
  have "B = {0..<card B}" using fin dc by (rule downward_closed_prefix)
  then have "B = {0..<r}" by (simp only: card)
  then have "(p \<in> B) = (p < r)" by simp
  then show ?thesis using p by (simp add: B_def)
qed

lemma chunk_keys_flat: "chunk_keys 128 128 16 flat_pos 0 = replicate 128 0"
proof (rule nth_equalityI)
  show "length (chunk_keys 128 128 16 flat_pos 0) = length (replicate 128 (0::real))"
    by (simp add: chunk_keys_def)
next
  fix i assume "i < length (chunk_keys 128 128 16 flat_pos 0)"
  then have i: "i < 128" by (simp add: chunk_keys_def)
  then show "chunk_keys 128 128 16 flat_pos 0 ! i = replicate 128 (0::real) ! i"
    by (simp add: chunk_keys_def fetchSFC_def fetch_at_def flat_pos_def Let_def)
qed

text \<open>
  C7, the original sentence (ties broken by original local index): it fails on a chunk of
  128 particles with equal keys. The first pass (\<open>k = 2\<close>, \<open>j = 1\<close>) exchanges positions
  2 and 3, because \<open>keys[2] > keys[3]\<close> is false and so is \<open>dir = ((2 & 2) == 0)\<close>; no
  later pass moves them back. The encoder emits local index 3 before local index 2
  although their keys are equal.
\<close>

theorem encoder_not_stable:
  "chunk_keys 128 128 16 flat_pos 0 ! 2 = chunk_keys 128 128 16 flat_pos 0 ! 3
   \<and> emitted_ids (KSortEncoder_main 128 16 1 128 0 flat_pos (0, 0)) ! 2 = 3
   \<and> emitted_ids (KSortEncoder_main 128 16 1 128 0 flat_pos (0, 0)) ! 3 = 2"
proof -
  have "emitted_ids (KSortEncoder_main 128 16 1 128 0 flat_pos (0, 0))
      = snd (bitonic_sort 128 (replicate 128 (0::real)))"
    using encoder_ids [of 16 1 128 0 flat_pos 0 0] by (simp add: chunk_keys_flat)
  then show ?thesis
    using bitonic_sort_const_128 [of "0::real"] by (simp add: chunk_keys_flat)
qed

text \<open>
  C7, amended: for the chunk of the atlas texel \<open>(x, y)\<close>, which starts at slot
  \<open>b = (y * ENC_W + x) * 128 + sortOffset\<close>, the emitted bytes are a permutation of the
  local indices \<open>0 .. 127\<close>, and the chunk's keys read in the emitted order are sorted
  ascending (not stably: equal keys come out in the order the network leaves them). A local
  index whose slot lies in \<open>[0, N)\<close> has the SFC key stored for that slot, any other has
  the key \<open>1.0e37\<close>; when every key of the chunk that was read from a slot is below
  \<open>1.0e37\<close>, the indices of the slots outside \<open>[0, N)\<close> occupy the high end of the
  emitted order.
\<close>

theorem encoder_sorts_chunk:
  fixes n data_w enc_w offs x y :: nat and texPos :: "vec4 tex"
  defines "b \<equiv> (y * enc_w + x) * 128 + offs"
  defines "keys \<equiv> chunk_keys 128 n data_w texPos (int b)"
  defines "ids \<equiv> emitted_ids (KSortEncoder_main 128 data_w enc_w n offs texPos (x, y))"
  shows "mset ids = mset [0..<128]
       \<and> sorted (map (nth keys) ids)
       \<and> (\<forall>l<128. b + l < n \<longrightarrow> keys ! l = snd (texPos (coord data_w (b + l))))
       \<and> (\<forall>l<128. \<not> b + l < n \<longrightarrow> keys ! l = 10 ^ 37)
       \<and> ((\<forall>l<128. b + l < n \<longrightarrow> keys ! l < 10 ^ 37)
            \<longrightarrow> (\<forall>p<128. (b + ids ! p < n) = (b + p < n)))"
proof -
  have c: "(128::nat) = 2 ^ 7" by simp
  have lk: "length keys = 128" by (simp add: keys_def chunk_keys_def)
  have ids: "ids = snd (bitonic_sort 128 keys)"
    unfolding ids_def keys_def b_def by (rule encoder_ids)
  have perm: "mset ids = mset [0..<128]"
    unfolding ids by (rule bitonic_sort_ids_perm(1) [OF c lk])
  have inv: "sort_inv 128 keys (bitonic_sort 128 keys)" by (rule bitonic_sort_inv [OF c lk])
  have "map (nth keys) ids = fst (bitonic_sort 128 keys)"
  proof (rule nth_equalityI)
    show "length (map (nth keys) ids) = length (fst (bitonic_sort 128 keys))"
      using inv by (auto simp: sort_inv_def ids split: prod.splits)
  next
    fix p assume "p < length (map (nth keys) ids)"
    then have p: "p < 128" using inv by (auto simp: sort_inv_def ids split: prod.splits)
    then show "map (nth keys) ids ! p = fst (bitonic_sort 128 keys) ! p"
      using inv by (auto simp: sort_inv_def ids split: prod.splits)
  qed
  moreover have "sorted (fst (bitonic_sort (2 ^ 7) keys))"
    by (rule bitonic_sort_sorted) (simp add: lk)
  ultimately have srt: "sorted (map (nth keys) ids)" by simp
  have inr: "keys ! l = snd (texPos (coord data_w (b + l)))" if "l < 128" "b + l < n" for l
  proof -
    have "fetch_at texPos data_w (int b + int l) = texPos (coord data_w (b + l))"
      using fetch_at_nat [of texPos data_w "b + l"] by simp
    then show ?thesis
      using that by (simp add: keys_def chunk_keys_def fetchSFC_def Let_def)
  qed
  have out: "keys ! l = 10 ^ 37" if "l < 128" "\<not> b + l < n" for l
    using that by (simp add: keys_def chunk_keys_def Let_def)
  have high: "(b + ids ! p < n) = (b + p < n)"
    if below: "\<forall>l<128. b + l < n \<longrightarrow> keys ! l < 10 ^ 37" and p: "p < 128" for p
  proof -
    define r where "r = min 128 (n - b)"
    have rl: "(b + l < n) = (l < r)" if "l < 128" for l using that by (auto simp: r_def)
    have "set ids = set [0..<128]" using perm by (rule mset_eq_setD)
    moreover have "ids ! p \<in> set ids" using p perm mset_eq_length [OF perm] by simp
    ultimately have ip: "ids ! p < 128" by simp
    have "(ids ! p < r) = (p < r)"
    proof (rule sentinels_high [OF perm _ _ _ _ p, where S = "10 ^ 37" and keys = keys])
      show "sorted (map (\<lambda>l. keys ! l) ids)" using srt by simp
      show "keys ! l < 10 ^ 37" if "l < 128" "l < r" for l using below that rl by simp
      show "keys ! l = 10 ^ 37" if "l < 128" "\<not> l < r" for l using out that rl by simp
      show "r \<le> 128" by (simp add: r_def)
    qed
    then show ?thesis using rl [OF ip] rl [OF p] by simp
  qed
  show ?thesis using perm srt inr out high by blast
qed

theorem encoder_sorts_chunk_witness:
  "mset (emitted_ids (KSortEncoder_main 128 16 1 100 0 flat_pos (0, 0))) = mset [0..<128]
   \<and> sorted (map (nth (chunk_keys 128 100 16 flat_pos 0))
               (emitted_ids (KSortEncoder_main 128 16 1 100 0 flat_pos (0, 0))))
   \<and> chunk_keys 128 100 16 flat_pos 0 ! 99 = snd (flat_pos (coord 16 99))
   \<and> chunk_keys 128 100 16 flat_pos 0 ! 100 = 10 ^ 37
   \<and> emitted_ids (KSortEncoder_main 128 16 1 100 0 flat_pos (0, 0)) ! 99 < 100
   \<and> 100 \<le> emitted_ids (KSortEncoder_main 128 16 1 100 0 flat_pos (0, 0)) ! 100"
proof -
  let ?keys = "chunk_keys 128 100 16 flat_pos 0"
  let ?ids = "emitted_ids (KSortEncoder_main 128 16 1 100 0 flat_pos (0, 0))"
  have below: "\<forall>l<128. l < 100 \<longrightarrow> ?keys ! l < 10 ^ 37"
    by (simp add: chunk_keys_def fetchSFC_def fetch_at_def flat_pos_def Let_def)
  have T: "mset ?ids = mset [0..<128]
       \<and> sorted (map (nth ?keys) ?ids)
       \<and> (\<forall>l<128. l < 100 \<longrightarrow> ?keys ! l = snd (flat_pos (coord 16 l)))
       \<and> (\<forall>l<128. \<not> l < 100 \<longrightarrow> ?keys ! l = 10 ^ 37)
       \<and> ((\<forall>l<128. l < 100 \<longrightarrow> ?keys ! l < 10 ^ 37)
            \<longrightarrow> (\<forall>p<128. (?ids ! p < 100) = (p < 100)))"
    using encoder_sorts_chunk [where n = 100 and data_w = 16 and enc_w = 1 and offs = 0
        and x = 0 and y = 0 and texPos = flat_pos]
    by (simp del: mset_upt)
  with below have H: "\<forall>p<128. (?ids ! p < 100) = (p < 100)" by blast
  have h1: "?ids ! 99 < 100" using H by simp
  have h2: "100 \<le> ?ids ! 100" using H by (simp add: not_less [symmetric])
  have k1: "?keys ! 99 = snd (flat_pos (coord 16 99))" using T by simp
  have k2: "?keys ! 100 = 10 ^ 37" using T by simp
  show ?thesis using T h1 h2 k1 k2 by blast
qed

end
